theory Spec2Isabelle
  imports Main "HOL-Library.Word" "HOL-Library.List_Lexorder"
begin

section \<open>Three-way merge of committed ranges (pkg/graveler/committed/merge.go)\<close>

subsection \<open>Keys, records and ranges\<close>

text \<open>
  A \<^verbatim>\<open>graveler.Key\<close> and an identity are Go byte slices. \<^verbatim>\<open>bytes.Compare\<close> orders
  them lexicographically by unsigned bytes and returns -1, 0 or 1; \<^verbatim>\<open>bytes.Equal\<close>
  is equality of the contents (a nil slice equals an empty one, both are the empty list).
\<close>

type_synonym byte = "8 word"
type_synonym key = "byte list"

fun bytes_Compare :: "byte list \<Rightarrow> byte list \<Rightarrow> int" where
  "bytes_Compare [] [] = 0"
| "bytes_Compare [] (y # ys) = - 1"
| "bytes_Compare (x # xs) [] = 1"
| "bytes_Compare (x # xs) (y # ys) =
     (if x < y then - 1 else if y < x then 1 else bytes_Compare xs ys)"

definition bytes_Equal :: "byte list \<Rightarrow> byte list \<Rightarrow> bool" where
  "bytes_Equal a b = (a = b)"

text \<open>
  Modelled from the spec: the declarations of \<^verbatim>\<open>graveler.ValueRecord\<close> and
  \<^verbatim>\<open>committed.Range\<close> are not among the source files. A record is the triple
  (key, identity, value blob); a range exposes its id, its min key and its max key.
\<close>

record ValueRecord =
  Key :: key
  Identity :: "byte list"
  Data :: "byte list"

record Range =
  ID :: string
  MinKey :: key
  MaxKey :: key

subsection \<open>Errors\<close>

text \<open>
  The errors merge.go can return: the sentinel \<^verbatim>\<open>graveler.ErrConflictFound\<close> (a bare
  value, nothing is attached to it), the context's error, an I/O error of a collaborator,
  an error wrapped by \<^verbatim>\<open>fmt.Errorf("...: %w", err)\<close> with its prefix, and the panic of
  dereferencing a nil \<^verbatim>\<open>*Range\<close>.
\<close>

datatype error =
    ErrConflictFound
  | ErrCanceled
  | ErrIO string
  | Wrapped string error
  | NilDereference

subsection \<open>The iterator\<close>

text \<open>
  Modelled from the spec: the \<^verbatim>\<open>Iterator\<close> interface is declared outside the source
  files. It is a cursor over a list of ranges, each with its records. Before the first
  \<^verbatim>\<open>Next\<close> the cursor is \<open>Fresh\<close>; then it is at the header of a range (the records
  of the range still ahead), or inside a range at a record (the later records of the range
  still ahead), or \<open>Finished\<close>. \<open>later\<close> holds the ranges after the current one.
  \<open>failure\<close> is the I/O failure the stream ends with, if any: \<^verbatim>\<open>Err\<close> reports it once
  a \<^verbatim>\<open>Next\<close> or \<^verbatim>\<open>NextRange\<close> has returned false.
\<close>

datatype cursor =
    Fresh
  | AtHeader Range "ValueRecord list"
  | InRange Range ValueRecord "ValueRecord list"
  | Finished

record iterator =
  cursor :: cursor
  later :: "(Range \<times> ValueRecord list) list"
  failure :: "string option"

definition Value :: "iterator \<Rightarrow> ValueRecord option \<times> Range option" where
  "Value it =
     (case cursor it of
        Fresh \<Rightarrow> (None, None)
      | AtHeader r recs \<Rightarrow> (None, Some r)
      | InRange r v recs \<Rightarrow> (Some v, Some r)
      | Finished \<Rightarrow> (None, None))"

definition NextRange :: "iterator \<Rightarrow> bool \<times> iterator" where
  "NextRange it =
     (case cursor it of
        Finished \<Rightarrow> (False, it)
      | _ \<Rightarrow>
         (case later it of
            [] \<Rightarrow> (False, it\<lparr>cursor := Finished\<rparr>)
          | (r, recs) # rest \<Rightarrow> (True, it\<lparr>cursor := AtHeader r recs, later := rest\<rparr>)))"

definition Next :: "iterator \<Rightarrow> bool \<times> iterator" where
  "Next it =
     (case cursor it of
        AtHeader r (v # recs) \<Rightarrow> (True, it\<lparr>cursor := InRange r v recs\<rparr>)
      | InRange r u (v # recs) \<Rightarrow> (True, it\<lparr>cursor := InRange r v recs\<rparr>)
      | _ \<Rightarrow> NextRange it)"

definition Err :: "iterator \<Rightarrow> error option" where
  "Err it =
     (case cursor it of
        Finished \<Rightarrow> map_option ErrIO (failure it)
      | _ \<Rightarrow> None)"

text \<open>The number of positions an iterator still has ahead: every advance lowers it.\<close>

fun later_size :: "(Range \<times> ValueRecord list) list \<Rightarrow> nat" where
  "later_size [] = 0"
| "later_size ((r, recs) # rest) = 2 + length recs + later_size rest"

definition iter_size :: "iterator \<Rightarrow> nat" where
  "iter_size it =
     (case cursor it of
        Fresh \<Rightarrow> 1 + later_size (later it)
      | AtHeader r recs \<Rightarrow> 1 + length recs + later_size (later it)
      | InRange r v recs \<Rightarrow> 1 + length recs + later_size (later it)
      | Finished \<Rightarrow> 0)"

subsection \<open>The writer and the context\<close>

text \<open>
  Modelled from the spec: \<^verbatim>\<open>MetaRangeWriter\<close> is declared outside the source files. It
  accepts whole ranges and single records, and either call may report an I/O error.
  \<open>written\<close> is the sequence of calls it accepted; \<open>budget\<close> is the number of calls
  it still accepts before it fails (\<open>None\<close>: it never fails).
\<close>

datatype wcall = WriteRange Range | WriteRecord ValueRecord

record writer =
  written :: "wcall list"
  budget :: "nat option"

definition writer_call :: "wcall \<Rightarrow> writer \<Rightarrow> error option \<times> writer" where
  "writer_call c w =
     (case budget w of
        None \<Rightarrow> (None, w\<lparr>written := written w @ [c]\<rparr>)
      | Some 0 \<Rightarrow> (Some (ErrIO ''write''), w)
      | Some (Suc n) \<Rightarrow> (None, w\<lparr>written := written w @ [c], budget := Some n\<rparr>))"

text \<open>
  The context is polled with \<^verbatim>\<open>select { case <-ctx.Done(): ... default: }\<close>. Once done
  it stays done, so what the merger can see of it is the number of polls that still find
  it not done (\<open>None\<close>: it is never cancelled).
\<close>

type_synonym done_chan = "nat option"

fun ctx_Done :: "done_chan \<Rightarrow> bool \<times> done_chan" where
  "ctx_Done None = (False, None)"
| "ctx_Done (Some 0) = (True, Some 0)"
| "ctx_Done (Some (Suc n)) = (False, Some n)"

subsection \<open>The merger\<close>

text \<open>
  The struct \<^verbatim>\<open>merger\<close>. Its logger only traces and is left out. The three iterators
  are distinct objects.
\<close>

record merger =
  ctx :: done_chan
  writer :: writer
  base :: iterator
  source :: iterator
  dest :: iterator
  haveSource :: bool
  haveDest :: bool

text \<open>The statements \<^verbatim>\<open>m.haveSource = m.source.Next()\<close> and their three siblings.\<close>

definition source_Next :: "merger \<Rightarrow> merger" where
  "source_Next m = (case Next (source m) of (ok, s) \<Rightarrow> m\<lparr>source := s, haveSource := ok\<rparr>)"

definition source_NextRange :: "merger \<Rightarrow> merger" where
  "source_NextRange m =
     (case NextRange (source m) of (ok, s) \<Rightarrow> m\<lparr>source := s, haveSource := ok\<rparr>)"

definition dest_Next :: "merger \<Rightarrow> merger" where
  "dest_Next m = (case Next (dest m) of (ok, d) \<Rightarrow> m\<lparr>dest := d, haveDest := ok\<rparr>)"

definition dest_NextRange :: "merger \<Rightarrow> merger" where
  "dest_NextRange m =
     (case NextRange (dest m) of (ok, d) \<Rightarrow> m\<lparr>dest := d, haveDest := ok\<rparr>)"

lemma NextRange_size: "NextRange it = (True, it') \<Longrightarrow> iter_size it' < iter_size it"
  by (auto simp: NextRange_def iter_size_def split: cursor.splits list.splits)

lemma Next_size: "Next it = (True, it') \<Longrightarrow> iter_size it' < iter_size it"
  by (auto simp: Next_def NextRange_def iter_size_def split: cursor.splits list.splits)

subsection \<open>Base lookups\<close>

text \<open>
  \<^verbatim>\<open>moveBaseToGERange\<close> and \<^verbatim>\<open>moveBaseToGEKey\<close> read and move \<^verbatim>\<open>m.base\<close> only, so
  the model takes the base iterator and returns it with the result.

  \<^verbatim>\<open>moveBaseToGERange\<close>: from the current position, move the base to the first range
  whose max key is at least the given key.
\<close>

function moveBaseToGERange :: "key \<Rightarrow> iterator \<Rightarrow> Range option \<times> error option \<times> iterator" where
  "moveBaseToGERange k b =
     (let baseRange = snd (Value b) in
      if baseRange \<noteq> None \<and> bytes_Compare (MaxKey (the baseRange)) k \<ge> 0
      then (baseRange, None, b)
      else (case NextRange b of
              (True, b') \<Rightarrow> moveBaseToGERange k b'
            | (False, b') \<Rightarrow> (None, Err b', b')))"
  by pat_completeness auto
termination
  by (relation "measure (\<lambda>(k, b). iter_size b)") (auto simp: NextRange_size)

declare moveBaseToGERange.simps [simp del]

text \<open>
  The loop of \<^verbatim>\<open>moveBaseToGEKey\<close>. \<open>innerRange\<close> is read before the advance; a nil
  \<open>innerRange\<close> or \<open>baseRange\<close> is dereferenced only when \<^verbatim>\<open>Next\<close> returned true.
\<close>

function moveBaseToGEKey_loop ::
  "key \<Rightarrow> Range option \<Rightarrow> iterator \<Rightarrow> ValueRecord option \<times> error option \<times> iterator" where
  "moveBaseToGEKey_loop k baseRange b =
     (let (baseValue, innerRange) = Value b in
      if baseValue \<noteq> None \<and> bytes_Compare k (Key (the baseValue)) \<le> 0
      then (baseValue, None, b)
      else (case Next b of
              (False, b') \<Rightarrow> (None, Err b', b')
            | (True, b') \<Rightarrow>
                (case (innerRange, baseRange) of
                   (Some ir, Some br) \<Rightarrow>
                     if ID ir \<noteq> ID br then (None, Err b', b')
                     else moveBaseToGEKey_loop k baseRange b'
                 | _ \<Rightarrow> (None, Some NilDereference, b'))))"
  by pat_completeness auto
termination
  by (relation "measure (\<lambda>(k, r, b). iter_size b)") (auto simp: Next_size)

declare moveBaseToGEKey_loop.simps [simp del]

definition moveBaseToGEKey ::
  "key \<Rightarrow> iterator \<Rightarrow> ValueRecord option \<times> error option \<times> iterator" where
  "moveBaseToGEKey k b =
     (let baseValue = fst (Value b) in
      if baseValue \<noteq> None \<and> bytes_Compare k (Key (the baseValue)) \<le> 0
      then (baseValue, None, b)
      else (case moveBaseToGERange k b of
              (baseRange, Some err, b') \<Rightarrow> (None, Some err, b')
            | (baseRange, None, b') \<Rightarrow> moveBaseToGEKey_loop k baseRange b'))"

subsection \<open>Writing\<close>

text \<open>
  \<^verbatim>\<open>writeRange\<close> and \<^verbatim>\<open>writeRecord\<close> call the writer (tracing apart) and wrap its
  error; they touch \<^verbatim>\<open>m.writer\<close> only.
\<close>

definition writeRange :: "Range \<Rightarrow> writer \<Rightarrow> error option \<times> writer" where
  "writeRange r w =
     (case writer_call (WriteRange r) w of
        (Some err, w') \<Rightarrow> (Some (Wrapped (''copy range '' @ ID r) err), w')
      | (None, w') \<Rightarrow> (None, w'))"

definition writeRecord :: "ValueRecord \<Rightarrow> writer \<Rightarrow> error option \<times> writer" where
  "writeRecord v w =
     (case writer_call (WriteRecord v) w of
        (Some err, w') \<Rightarrow> (Some (Wrapped ''write record'' err), w')
      | (None, w') \<Rightarrow> (None, w'))"

subsection \<open>The tail: one side remains\<close>

datatype side = Source | Dest

fun iter :: "side \<Rightarrow> merger \<Rightarrow> iterator" where
  "iter Source m = source m"
| "iter Dest m = dest m"

fun set_iter :: "side \<Rightarrow> iterator \<Rightarrow> merger \<Rightarrow> merger" where
  "set_iter Source it m = m\<lparr>source := it\<rparr>"
| "set_iter Dest it m = m\<lparr>dest := it\<rparr>"

lemma iter_set_iter [simp]: "iter sd (set_iter sd it m) = it"
  by (cases sd) simp_all

lemma iter_updates [simp]:
  "iter sd (m\<lparr>ctx := c\<rparr>) = iter sd m"
  "iter sd (m\<lparr>base := b\<rparr>) = iter sd m"
  "iter sd (m\<lparr>writer := w\<rparr>) = iter sd m"
  by (cases sd; simp)+

text \<open>
  \<^verbatim>\<open>handleAll(iter)\<close>, called with \<^verbatim>\<open>m.source\<close> or \<^verbatim>\<open>m.dest\<close>. It advances the
  iterator without assigning \<^verbatim>\<open>haveSource\<close> or \<^verbatim>\<open>haveDest\<close>. One iteration of its
  loop either returns (a \<^verbatim>\<open>return\<close>, or the \<^verbatim>\<open>break\<close> that leads to
  \<^verbatim>\<open>return iter.Err()\<close>) or goes on to the next iteration.
\<close>

datatype outcome = Returns "error option" | Continues

definition handleAll_body :: "side \<Rightarrow> merger \<Rightarrow> outcome \<times> merger" where
  "handleAll_body sd m =
     (case ctx_Done (ctx m) of
        (True, c) \<Rightarrow> (Returns (Some ErrCanceled), m\<lparr>ctx := c\<rparr>)
      | (False, c) \<Rightarrow>
         (case Value (iter sd m) of
            (None, None) \<Rightarrow> (Returns (Some NilDereference), m\<lparr>ctx := c\<rparr>)
          | (None, Some iterRange) \<Rightarrow>
              (case moveBaseToGERange (MinKey iterRange) (base m) of
                 (baseRange, Some err, b) \<Rightarrow>
                   (Returns (Some (Wrapped ''base range GE'' err)), m\<lparr>ctx := c, base := b\<rparr>)
               | (baseRange, None, b) \<Rightarrow>
                   (case (if baseRange = None \<or> ID (the baseRange) \<noteq> ID iterRange
                          then writeRange iterRange (writer m) else (None, writer m)) of
                      (Some err, w) \<Rightarrow>
                        (Returns (Some err), m\<lparr>ctx := c, base := b, writer := w\<rparr>)
                    | (None, w) \<Rightarrow>
                        (case NextRange (iter sd m) of
                           (False, it) \<Rightarrow>
                             (Returns (Err it),
                              set_iter sd it (m\<lparr>ctx := c, base := b, writer := w\<rparr>))
                         | (True, it) \<Rightarrow>
                             (Continues,
                              set_iter sd it (m\<lparr>ctx := c, base := b, writer := w\<rparr>)))))
          | (Some iterValue, iterRange) \<Rightarrow>
              (case moveBaseToGEKey (Key iterValue) (base m) of
                 (baseValue, Some err, b) \<Rightarrow>
                   (Returns (Some (Wrapped ''base value GE'' err)), m\<lparr>ctx := c, base := b\<rparr>)
               | (baseValue, None, b) \<Rightarrow>
                   (case (if baseValue = None
                             \<or> \<not> bytes_Equal (Identity (the baseValue)) (Identity iterValue)
                          then writeRecord iterValue (writer m) else (None, writer m)) of
                      (Some err, w) \<Rightarrow>
                        (Returns (Some err), m\<lparr>ctx := c, base := b, writer := w\<rparr>)
                    | (None, w) \<Rightarrow>
                        (case Next (iter sd m) of
                           (False, it) \<Rightarrow>
                             (Returns (Err it),
                              set_iter sd it (m\<lparr>ctx := c, base := b, writer := w\<rparr>))
                         | (True, it) \<Rightarrow>
                             (Continues,
                              set_iter sd it (m\<lparr>ctx := c, base := b, writer := w\<rparr>)))))))"

lemma handleAll_body_size:
  "handleAll_body sd m = (Continues, m') \<Longrightarrow> iter_size (iter sd m') < iter_size (iter sd m)"
  by (auto simp: handleAll_body_def Next_size NextRange_size
      split: prod.splits bool.splits option.splits if_splits)

function handleAll :: "side \<Rightarrow> merger \<Rightarrow> error option \<times> merger" where
  "handleAll sd m =
     (case handleAll_body sd m of
        (Returns err, m') \<Rightarrow> (err, m')
      | (Continues, m') \<Rightarrow> handleAll sd m')"
  by pat_completeness auto
termination
  by (relation "measure (\<lambda>(sd, m). iter_size (iter sd m))")
     (auto simp: handleAll_body_size)

declare handleAll.simps [simp del]

subsection \<open>The four handlers of the main loop\<close>

text \<open>\<^verbatim>\<open>handleBothRanges\<close>: source and dest are both at the header of a range.\<close>

definition handleBothRanges :: "Range \<Rightarrow> Range \<Rightarrow> merger \<Rightarrow> error option \<times> merger" where
  "handleBothRanges sourceRange destRange m =
     (if ID sourceRange = ID destRange then
        (case writeRange sourceRange (writer m) of
           (Some err, w) \<Rightarrow> (Some err, m\<lparr>writer := w\<rparr>)
         | (None, w) \<Rightarrow> (None, dest_NextRange (source_NextRange (m\<lparr>writer := w\<rparr>))))
      else if bytes_Compare (MaxKey sourceRange) (MinKey destRange) < 0 then
        (case moveBaseToGERange (MinKey sourceRange) (base m) of
           (baseRange, Some err, b) \<Rightarrow> (Some (Wrapped ''base range GE'' err), m\<lparr>base := b\<rparr>)
         | (baseRange, None, b) \<Rightarrow>
             if baseRange \<noteq> None \<and> ID sourceRange = ID (the baseRange)
             then (None, source_NextRange (m\<lparr>base := b\<rparr>))
             else if baseRange = None \<or> ID destRange = ID (the baseRange)
             then (case writeRange sourceRange (writer m) of
                     (Some err, w) \<Rightarrow> (Some err, m\<lparr>base := b, writer := w\<rparr>)
                   | (None, w) \<Rightarrow> (None, source_NextRange (m\<lparr>base := b, writer := w\<rparr>)))
             else (None, dest_Next (source_Next (m\<lparr>base := b\<rparr>))))
      else if bytes_Compare (MaxKey destRange) (MinKey sourceRange) < 0 then
        (case moveBaseToGERange (MinKey destRange) (base m) of
           (baseRange, Some err, b) \<Rightarrow> (Some (Wrapped ''base range GE'' err), m\<lparr>base := b\<rparr>)
         | (baseRange, None, b) \<Rightarrow>
             if baseRange \<noteq> None \<and> ID sourceRange = ID (the baseRange)
             then (case writeRange destRange (writer m) of
                     (Some err, w) \<Rightarrow> (Some err, m\<lparr>base := b, writer := w\<rparr>)
                   | (None, w) \<Rightarrow> (None, dest_NextRange (m\<lparr>base := b, writer := w\<rparr>)))
             else if baseRange = None \<or> ID destRange = ID (the baseRange)
             then (None, dest_NextRange (m\<lparr>base := b\<rparr>))
             else (None, dest_Next (source_Next (m\<lparr>base := b\<rparr>))))
      else if bytes_Equal (MinKey sourceRange) (MinKey destRange)
              \<and> bytes_Equal (MaxKey sourceRange) (MaxKey destRange) then
        (case moveBaseToGERange (MinKey sourceRange) (base m) of
           (baseRange, Some err, b) \<Rightarrow> (Some err, m\<lparr>base := b\<rparr>)
         | (baseRange, None, b) \<Rightarrow>
             if baseRange \<noteq> None
                \<and> (ID sourceRange = ID (the baseRange) \<or> ID destRange = ID (the baseRange))
             then (case (if ID sourceRange = ID (the baseRange)
                         then writeRange destRange (writer m)
                         else writeRange sourceRange (writer m)) of
                     (Some err, w) \<Rightarrow> (Some err, m\<lparr>base := b, writer := w\<rparr>)
                   | (None, w) \<Rightarrow>
                       (None, dest_NextRange (source_NextRange (m\<lparr>base := b, writer := w\<rparr>))))
             else (None, dest_Next (source_Next (m\<lparr>base := b\<rparr>))))
      else (None, dest_Next (source_Next m)))"

text \<open>\<^verbatim>\<open>handleBothKeys\<close>: source and dest are both at a record inside a range.\<close>

definition handleBothKeys ::
  "ValueRecord \<Rightarrow> ValueRecord \<Rightarrow> merger \<Rightarrow> error option \<times> merger" where
  "handleBothKeys sourceValue destValue m =
     (let c = bytes_Compare (Key sourceValue) (Key destValue) in
      if c < 0 then
        (case moveBaseToGEKey (Key sourceValue) (base m) of
           (baseValue, Some err, b) \<Rightarrow> (Some err, m\<lparr>base := b\<rparr>)
         | (baseValue, None, b) \<Rightarrow>
             if baseValue \<noteq> None
                \<and> bytes_Equal (Identity sourceValue) (Identity (the baseValue))
             then (None, source_Next (m\<lparr>base := b\<rparr>))
             else if baseValue \<noteq> None \<and> bytes_Equal (Key sourceValue) (Key (the baseValue))
             then (Some ErrConflictFound, m\<lparr>base := b\<rparr>)
             else (case writeRecord sourceValue (writer m) of
                     (Some err, w) \<Rightarrow>
                       (Some (Wrapped ''write source record'' err), m\<lparr>base := b, writer := w\<rparr>)
                   | (None, w) \<Rightarrow> (None, source_Next (m\<lparr>base := b, writer := w\<rparr>))))
      else if c > 0 then
        (case moveBaseToGEKey (Key destValue) (base m) of
           (baseValue, Some err, b) \<Rightarrow> (Some err, m\<lparr>base := b\<rparr>)
         | (baseValue, None, b) \<Rightarrow>
             if baseValue \<noteq> None
                \<and> bytes_Equal (Identity destValue) (Identity (the baseValue))
             then (None, dest_Next (m\<lparr>base := b\<rparr>))
             else if baseValue \<noteq> None \<and> bytes_Equal (Key destValue) (Key (the baseValue))
             then (Some ErrConflictFound, m\<lparr>base := b\<rparr>)
             else (case writeRecord destValue (writer m) of
                     (Some err, w) \<Rightarrow>
                       (Some (Wrapped ''write dest record'' err), m\<lparr>base := b, writer := w\<rparr>)
                   | (None, w) \<Rightarrow> (None, dest_Next (m\<lparr>base := b, writer := w\<rparr>))))
      else
        (case moveBaseToGEKey (Key destValue) (base m) of
           (baseValue, Some err, b) \<Rightarrow> (Some err, m\<lparr>base := b\<rparr>)
         | (baseValue, None, b) \<Rightarrow>
             if \<not> bytes_Equal (Identity sourceValue) (Identity destValue) then
               (if baseValue \<noteq> None then
                  (if bytes_Equal (Identity sourceValue) (Identity (the baseValue)) then
                     (case writeRecord destValue (writer m) of
                        (Some err, w) \<Rightarrow>
                          (Some (Wrapped ''write record'' err), m\<lparr>base := b, writer := w\<rparr>)
                      | (None, w) \<Rightarrow>
                          (None, dest_Next (source_Next (m\<lparr>base := b, writer := w\<rparr>))))
                   else if bytes_Equal (Identity destValue) (Identity (the baseValue)) then
                     (case writeRecord sourceValue (writer m) of
                        (Some err, w) \<Rightarrow>
                          (Some (Wrapped ''write record'' err), m\<lparr>base := b, writer := w\<rparr>)
                      | (None, w) \<Rightarrow>
                          (None, dest_Next (source_Next (m\<lparr>base := b, writer := w\<rparr>))))
                   else (Some ErrConflictFound, m\<lparr>base := b\<rparr>))
                else (Some ErrConflictFound, m\<lparr>base := b\<rparr>))
             else
               (case writeRecord sourceValue (writer m) of
                  (Some err, w) \<Rightarrow>
                    (Some (Wrapped ''write record'' err), m\<lparr>base := b, writer := w\<rparr>)
                | (None, w) \<Rightarrow>
                    (None, dest_Next (source_Next (m\<lparr>base := b, writer := w\<rparr>))))))"

text \<open>
  \<^verbatim>\<open>handleDestRangeSourceKey\<close>: source is at a record inside a range, dest at the header
  of a range.
\<close>

definition handleDestRangeSourceKey ::
  "Range \<Rightarrow> ValueRecord \<Rightarrow> merger \<Rightarrow> error option \<times> merger" where
  "handleDestRangeSourceKey destRange sourceValue m =
     (if bytes_Compare (MinKey destRange) (Key sourceValue) > 0 then
        (case moveBaseToGEKey (Key sourceValue) (base m) of
           (baseValue, Some err, b) \<Rightarrow> (Some (Wrapped ''base key GE'' err), m\<lparr>base := b\<rparr>)
         | (baseValue, None, b) \<Rightarrow>
             if baseValue \<noteq> None
                \<and> bytes_Equal (Identity sourceValue) (Identity (the baseValue))
             then (None, source_Next (m\<lparr>base := b\<rparr>))
             else if baseValue \<noteq> None \<and> bytes_Equal (Key sourceValue) (Key (the baseValue))
             then (Some ErrConflictFound, m\<lparr>base := b\<rparr>)
             else (case writeRecord sourceValue (writer m) of
                     (Some err, w) \<Rightarrow>
                       (Some (Wrapped ''write source record'' err), m\<lparr>base := b, writer := w\<rparr>)
                   | (None, w) \<Rightarrow> (None, source_Next (m\<lparr>base := b, writer := w\<rparr>))))
      else if bytes_Compare (MaxKey destRange) (Key sourceValue) < 0 then
        (case moveBaseToGERange (MinKey destRange) (base m) of
           (baseRange, Some err, b) \<Rightarrow> (Some (Wrapped ''base range GE'' err), m\<lparr>base := b\<rparr>)
         | (baseRange, None, b) \<Rightarrow>
             if baseRange \<noteq> None \<and> ID destRange = ID (the baseRange)
             then (None, dest_NextRange (m\<lparr>base := b\<rparr>))
             else (None, dest_Next (m\<lparr>base := b\<rparr>)))
      else (None, dest_Next m))"

text \<open>
  \<^verbatim>\<open>handleSourceRangeDestKey\<close>: dest is at a record inside a range, source at the header
  of a range. Where the base holds the dest record's identity (line 331), the code
  advances the source iterator.
\<close>

definition handleSourceRangeDestKey ::
  "Range \<Rightarrow> ValueRecord \<Rightarrow> merger \<Rightarrow> error option \<times> merger" where
  "handleSourceRangeDestKey sourceRange destValue m =
     (if bytes_Compare (MinKey sourceRange) (Key destValue) > 0 then
        (case moveBaseToGEKey (Key destValue) (base m) of
           (baseValue, Some err, b) \<Rightarrow> (Some (Wrapped ''base key GE'' err), m\<lparr>base := b\<rparr>)
         | (baseValue, None, b) \<Rightarrow>
             if baseValue \<noteq> None
                \<and> bytes_Equal (Identity destValue) (Identity (the baseValue))
             then (None, source_Next (m\<lparr>base := b\<rparr>))
             else if baseValue \<noteq> None \<and> bytes_Equal (Key destValue) (Key (the baseValue))
             then (Some ErrConflictFound, m\<lparr>base := b\<rparr>)
             else (case writeRecord destValue (writer m) of
                     (Some err, w) \<Rightarrow>
                       (Some (Wrapped ''write dest record'' err), m\<lparr>base := b, writer := w\<rparr>)
                   | (None, w) \<Rightarrow> (None, dest_Next (m\<lparr>base := b, writer := w\<rparr>))))
      else if bytes_Compare (MaxKey sourceRange) (Key destValue) < 0 then
        (case moveBaseToGERange (MinKey sourceRange) (base m) of
           (baseRange, Some err, b) \<Rightarrow> (Some (Wrapped ''base range GE'' err), m\<lparr>base := b\<rparr>)
         | (baseRange, None, b) \<Rightarrow>
             if baseRange \<noteq> None \<and> ID sourceRange = ID (the baseRange)
             then (None, source_NextRange (m\<lparr>base := b\<rparr>))
             else (None, source_Next (m\<lparr>base := b\<rparr>)))
      else (None, source_Next m))"

subsection \<open>The main loop and merge\<close>

text \<open>
  The \<^verbatim>\<open>switch\<close> of the loop body. Each handler dereferences the range it is given in
  its first statement, so a nil range panics before anything else happens.
\<close>

definition dispatch :: "merger \<Rightarrow> error option \<times> merger" where
  "dispatch m =
     (case (Value (source m), Value (dest m)) of
        ((None, sourceRange), (None, destRange)) \<Rightarrow>
          (case (sourceRange, destRange) of
             (Some sr, Some dr) \<Rightarrow> handleBothRanges sr dr m
           | _ \<Rightarrow> (Some NilDereference, m))
      | ((Some sourceValue, sourceRange), (None, destRange)) \<Rightarrow>
          (case destRange of
             Some dr \<Rightarrow> handleDestRangeSourceKey dr sourceValue m
           | None \<Rightarrow> (Some NilDereference, m))
      | ((None, sourceRange), (Some destValue, destRange)) \<Rightarrow>
          (case sourceRange of
             Some sr \<Rightarrow> handleSourceRangeDestKey sr destValue m
           | None \<Rightarrow> (Some NilDereference, m))
      | ((Some sourceValue, sourceRange), (Some destValue, destRange)) \<Rightarrow>
          handleBothKeys sourceValue destValue m)"

text \<open>One iteration of the loop of \<^verbatim>\<open>merge\<close>: the poll, the switch and the three checks.\<close>

definition mergeStep :: "merger \<Rightarrow> error option \<times> merger" where
  "mergeStep m =
     (case ctx_Done (ctx m) of
        (True, c) \<Rightarrow> (Some ErrCanceled, m\<lparr>ctx := c\<rparr>)
      | (False, c) \<Rightarrow>
         (case dispatch (m\<lparr>ctx := c\<rparr>) of
            (Some err, m') \<Rightarrow> (Some err, m')
          | (None, m') \<Rightarrow>
             (case Err (source m') of
                Some err \<Rightarrow> (Some err, m')
              | None \<Rightarrow>
                 (case Err (dest m') of
                    Some err \<Rightarrow> (Some err, m')
                  | None \<Rightarrow>
                     (case Err (base m') of
                        Some err \<Rightarrow> (Some err, m')
                      | None \<Rightarrow> (None, m'))))))"

lemma Next_size_le: "iter_size (snd (Next it)) \<le> iter_size it"
  by (auto simp: Next_def NextRange_def iter_size_def split: cursor.splits list.splits)

lemma NextRange_size_le: "iter_size (snd (NextRange it)) \<le> iter_size it"
  by (auto simp: NextRange_def iter_size_def split: cursor.splits list.splits)

lemma Next_size_lt: "snd (Value it) \<noteq> None \<Longrightarrow> iter_size (snd (Next it)) < iter_size it"
  by (auto simp: Next_def NextRange_def Value_def iter_size_def split: cursor.splits list.splits)

lemma NextRange_size_lt:
  "snd (Value it) \<noteq> None \<Longrightarrow> iter_size (snd (NextRange it)) < iter_size it"
  by (auto simp: NextRange_def Value_def iter_size_def split: cursor.splits list.splits)

lemma adv_simps [simp]:
  "source (source_Next m) = snd (Next (source m))"
  "dest (source_Next m) = dest m"
  "source (source_NextRange m) = snd (NextRange (source m))"
  "dest (source_NextRange m) = dest m"
  "dest (dest_Next m) = snd (Next (dest m))"
  "source (dest_Next m) = source m"
  "dest (dest_NextRange m) = snd (NextRange (dest m))"
  "source (dest_NextRange m) = source m"
  by (simp_all add: source_Next_def source_NextRange_def dest_Next_def dest_NextRange_def
      split: prod.splits)

text \<open>Every successful iteration of the loop advances the source or the dest.\<close>

definition progress :: "merger \<Rightarrow> nat" where
  "progress m = iter_size (source m) + iter_size (dest m)"

lemma handleBothRanges_progress:
  assumes "snd (Value (source m)) \<noteq> None" "snd (Value (dest m)) \<noteq> None"
    and "handleBothRanges sr dr m = (None, m')"
  shows "progress m' < progress m"
proof -
  note s = Next_size_lt [OF assms(1)] NextRange_size_lt [OF assms(1)]
  note d = Next_size_lt [OF assms(2)] NextRange_size_lt [OF assms(2)]
  from assms(3) s d show ?thesis
    by (auto simp: handleBothRanges_def progress_def split: if_splits prod.splits option.splits)
qed

lemma handleBothKeys_progress:
  assumes "snd (Value (source m)) \<noteq> None" "snd (Value (dest m)) \<noteq> None"
    and "handleBothKeys sr dr m = (None, m')"
  shows "progress m' < progress m"
proof -
  note s = Next_size_lt [OF assms(1)] NextRange_size_lt [OF assms(1)]
  note d = Next_size_lt [OF assms(2)] NextRange_size_lt [OF assms(2)]
  from assms(3) s d show ?thesis
    by (auto simp: handleBothKeys_def progress_def Let_def split: if_splits prod.splits option.splits)
qed

lemma handleDestRangeSourceKey_progress:
  assumes "snd (Value (source m)) \<noteq> None" "snd (Value (dest m)) \<noteq> None"
    and "handleDestRangeSourceKey sr dr m = (None, m')"
  shows "progress m' < progress m"
proof -
  note s = Next_size_lt [OF assms(1)] NextRange_size_lt [OF assms(1)]
  note d = Next_size_lt [OF assms(2)] NextRange_size_lt [OF assms(2)]
  from assms(3) s d show ?thesis
    by (auto simp: handleDestRangeSourceKey_def progress_def Let_def split: if_splits prod.splits option.splits)
qed

lemma handleSourceRangeDestKey_progress:
  assumes "snd (Value (source m)) \<noteq> None" "snd (Value (dest m)) \<noteq> None"
    and "handleSourceRangeDestKey sr dr m = (None, m')"
  shows "progress m' < progress m"
proof -
  note s = Next_size_lt [OF assms(1)] NextRange_size_lt [OF assms(1)]
  note d = Next_size_lt [OF assms(2)] NextRange_size_lt [OF assms(2)]
  from assms(3) s d show ?thesis
    by (auto simp: handleSourceRangeDestKey_def progress_def Let_def split: if_splits prod.splits option.splits)
qed

lemma dispatch_progress:
  assumes "dispatch m = (None, m')"
  shows "progress m' < progress m"
  using assms
  by (auto simp: dispatch_def Value_def split: cursor.splits option.splits prod.splits
      dest!: handleBothRanges_progress [rotated 2] handleBothKeys_progress [rotated 2]
        handleDestRangeSourceKey_progress [rotated 2] handleSourceRangeDestKey_progress [rotated 2])

lemma mergeStep_progress:
  assumes "mergeStep m = (None, m')"
  shows "progress m' < progress m"
  using assms
  by (auto simp: mergeStep_def progress_def split: prod.splits option.splits bool.splits
      dest!: dispatch_progress)

function mergeLoop :: "merger \<Rightarrow> error option \<times> merger" where
  "mergeLoop m =
     (if haveSource m \<and> haveDest m then
        (case mergeStep m of
           (Some err, m') \<Rightarrow> (Some err, m')
         | (None, m') \<Rightarrow> mergeLoop m')
      else (None, m))"
  by pat_completeness auto
termination
  by (relation "measure progress") (auto simp: mergeStep_progress)

declare mergeLoop.simps [simp del]

text \<open>
  \<^verbatim>\<open>merge\<close>: prime the three iterators, run the loop while both sides have a position,
  then finish the side that remains.
\<close>

definition prime :: "merger \<Rightarrow> merger" where
  "prime m =
     m\<lparr>source := snd (Next (source m)), haveSource := fst (Next (source m)),
       dest := snd (Next (dest m)), haveDest := fst (Next (dest m)),
       base := snd (Next (base m))\<rparr>"

definition merge :: "merger \<Rightarrow> error option \<times> merger" where
  "merge m =
     (case mergeLoop (prime m) of
        (Some err, m1) \<Rightarrow> (Some err, m1)
      | (None, m1) \<Rightarrow>
         (case (if haveSource m1 then handleAll Source m1 else (None, m1)) of
            (Some err, m2) \<Rightarrow> (Some err, m2)
          | (None, m2) \<Rightarrow>
             (case (if haveDest m2 then handleAll Dest m2 else (None, m2)) of
                (Some err, m3) \<Rightarrow> (Some err, m3)
              | (None, m3) \<Rightarrow> (None, m3))))"

definition Merge ::
  "done_chan \<Rightarrow> writer \<Rightarrow> iterator \<Rightarrow> iterator \<Rightarrow> iterator \<Rightarrow> error option \<times> merger" where
  "Merge c w base_it source_it destination =
     merge \<lparr>ctx = c, writer = w, base = base_it, source = source_it, dest = destination,
            haveSource = False, haveDest = False\<rparr>"

text \<open>A fresh iterator over a list of ranges, and an empty writer that never fails.\<close>

definition new_iterator :: "(Range \<times> ValueRecord list) list \<Rightarrow> iterator" where
  "new_iterator rs = \<lparr>cursor = Fresh, later = rs, failure = None\<rparr>"

definition new_writer :: writer where
  "new_writer = \<lparr>written = [], budget = None\<rparr>"

section \<open>Specification\<close>

text \<open>
  The states at the top of the iterations of the main loop: \<open>loop_reaches m m'\<close> when
  the loop entered at \<open>m\<close> comes to the top of an iteration at \<open>m'\<close>.
\<close>

inductive loop_reaches :: "merger \<Rightarrow> merger \<Rightarrow> bool" where
  start: "loop_reaches m m"
| step: "loop_reaches m m1 \<Longrightarrow> haveSource m1 \<Longrightarrow> haveDest m1 \<Longrightarrow> mergeStep m1 = (None, m2)
         \<Longrightarrow> loop_reaches m m2"

text \<open>
  What a handler has done when it returns the conflict: the base lookup over a key, and
  nothing else.
\<close>

definition detected :: "merger \<Rightarrow> merger \<Rightarrow> bool" where
  "detected m m' \<longleftrightarrow>
     writer m' = writer m \<and> source m' = source m \<and> dest m' = dest m
     \<and> haveSource m' = haveSource m \<and> haveDest m' = haveDest m \<and> ctx m' = ctx m
     \<and> (\<exists>k bv. moveBaseToGEKey k (base m) = (bv, None, base m'))"

text \<open>
  The states at the top of the iterations of \<^verbatim>\<open>handleAll\<close>: \<open>drain_reaches sd m m'\<close>
  when \<^verbatim>\<open>handleAll\<close>, entered at \<open>m\<close>, comes to the top of an iteration at \<open>m'\<close>.
\<close>

inductive drain_reaches :: "side \<Rightarrow> merger \<Rightarrow> merger \<Rightarrow> bool" where
  start: "drain_reaches sd m m"
| step: "drain_reaches sd m m1 \<Longrightarrow> handleAll_body sd m1 = (Continues, m2)
         \<Longrightarrow> drain_reaches sd m m2"

text \<open>
  The polls of the context in a call of \<^verbatim>\<open>merge\<close>: \<open>polls m m'\<close> when \<^verbatim>\<open>merge\<close>,
  called on \<open>m\<close>, comes with the merger \<open>m'\<close> to the top of an iteration of the main loop,
  of \<^verbatim>\<open>handleAll(m.source)\<close> or of \<^verbatim>\<open>handleAll(m.dest)\<close>.
\<close>

inductive polls :: "merger \<Rightarrow> merger \<Rightarrow> bool" where
  in_loop: "loop_reaches (prime m) m' \<Longrightarrow> haveSource m' \<Longrightarrow> haveDest m' \<Longrightarrow> polls m m'"
| in_source_tail: "mergeLoop (prime m) = (None, m1) \<Longrightarrow> haveSource m1
     \<Longrightarrow> drain_reaches Source m1 m' \<Longrightarrow> polls m m'"
| in_dest_tail: "mergeLoop (prime m) = (None, m1)
     \<Longrightarrow> (if haveSource m1 then handleAll Source m1 else (None, m1)) = (None, m2)
     \<Longrightarrow> haveDest m2 \<Longrightarrow> drain_reaches Dest m2 m' \<Longrightarrow> polls m m'"

text \<open>
  What an iterator still has ahead: its current range with the records of it not yet
  passed (the current record included), then the later ranges.
\<close>

definition ahead :: "iterator \<Rightarrow> (Range \<times> ValueRecord list) list" where
  "ahead b =
     (case cursor b of
        Fresh \<Rightarrow> later b
      | AtHeader r recs \<Rightarrow> (r, recs) # later b
      | InRange r v recs \<Rightarrow> (r, v # recs) # later b
      | Finished \<Rightarrow> [])"

text \<open>Every record of a range has a key of at most the range's max key.\<close>

definition records_in_bounds :: "(Range \<times> ValueRecord list) list \<Rightarrow> bool" where
  "records_in_bounds rs \<longleftrightarrow>
     (\<forall>(r, recs) \<in> set rs. \<forall>v \<in> set recs. bytes_Compare (Key v) (MaxKey r) \<le> 0)"

text \<open>The first range ahead whose max key is at least \<open>k\<close>, with its records ahead.\<close>

definition ge_range :: "key \<Rightarrow> iterator \<Rightarrow> (Range \<times> ValueRecord list) option" where
  "ge_range k b = find (\<lambda>p. bytes_Compare (MaxKey (fst p)) k \<ge> 0) (ahead b)"

text \<open>
  The invariants of the data model. A range holds a non-empty run of records with strictly
  increasing keys, from its min key to its max key; the ranges of an iterator follow one
  another, each beginning after the max key of the one before. Two ranges with the same
  id, one of the source and one of the dest, are the same range with the same records.
\<close>

definition wf_range :: "Range \<Rightarrow> ValueRecord list \<Rightarrow> bool" where
  "wf_range r recs \<longleftrightarrow>
     recs \<noteq> [] \<and> Key (hd recs) = MinKey r \<and> Key (last recs) = MaxKey r
     \<and> sorted_wrt (\<lambda>a b. bytes_Compare a b < 0) (map Key recs)"

fun ranges_after :: "key \<Rightarrow> (Range \<times> ValueRecord list) list \<Rightarrow> bool" where
  "ranges_after k [] = True"
| "ranges_after k ((r, recs) # rest) =
     (bytes_Compare k (MinKey r) < 0 \<and> wf_range r recs \<and> ranges_after (MaxKey r) rest)"

definition wf_ranges :: "(Range \<times> ValueRecord list) list \<Rightarrow> bool" where
  "wf_ranges rs =
     (case rs of [] \<Rightarrow> True | (r, recs) # rest \<Rightarrow> wf_range r recs \<and> ranges_after (MaxKey r) rest)"

definition content_addressed ::
  "(Range \<times> ValueRecord list) list \<Rightarrow> (Range \<times> ValueRecord list) list \<Rightarrow> bool" where
  "content_addressed src dst \<longleftrightarrow>
     (\<forall>(r, recs) \<in> set src. \<forall>(r', recs') \<in> set dst. ID r = ID r' \<longrightarrow> r = r' \<and> recs = recs')"

text \<open>
  The writer is given the header of a range only; the records written with it are those
  the range holds in the inputs. \<open>emitted_keys\<close> is the sequence of keys of all the
  writer calls, in order.
\<close>

definition range_records ::
  "(Range \<times> ValueRecord list) list \<Rightarrow> (Range \<times> ValueRecord list) list \<Rightarrow> Range
     \<Rightarrow> ValueRecord list" where
  "range_records src dst r = (case map_of (src @ dst) r of Some recs \<Rightarrow> recs | None \<Rightarrow> [])"

definition keys_of ::
  "(Range \<times> ValueRecord list) list \<Rightarrow> (Range \<times> ValueRecord list) list \<Rightarrow> wcall \<Rightarrow> key list" where
  "keys_of src dst c =
     (case c of WriteRecord v \<Rightarrow> [Key v] | WriteRange r \<Rightarrow> map Key (range_records src dst r))"

definition emitted_keys ::
  "(Range \<times> ValueRecord list) list \<Rightarrow> (Range \<times> ValueRecord list) list \<Rightarrow> wcall list
     \<Rightarrow> key list" where
  "emitted_keys src dst log = concat (map (keys_of src dst) log)"

text \<open>
  Where an iterator has come to: what it still holds is well formed, \<open>keys_ahead\<close> are
  the keys of the records it still holds, and \<open>whole\<close> are the ranges it has not entered.
\<close>

definition wf_iter :: "iterator \<Rightarrow> bool" where
  "wf_iter it =
     (case cursor it of
        Fresh \<Rightarrow> wf_ranges (later it)
      | AtHeader r recs \<Rightarrow> wf_range r recs \<and> ranges_after (MaxKey r) (later it)
      | InRange r v recs \<Rightarrow>
          sorted_wrt (<) (map Key (v # recs)) \<and> Key (last (v # recs)) = MaxKey r
          \<and> ranges_after (MaxKey r) (later it)
      | Finished \<Rightarrow> True)"

definition keys_ahead :: "iterator \<Rightarrow> key set" where
  "keys_ahead it = (\<Union>p \<in> set (ahead it). Key ` set (snd p))"

definition whole :: "iterator \<Rightarrow> (Range \<times> ValueRecord list) set" where
  "whole it =
     (case cursor it of
        Fresh \<Rightarrow> set (later it)
      | AtHeader r recs \<Rightarrow> insert (r, recs) (set (later it))
      | InRange r v recs \<Rightarrow> set (later it)
      | Finished \<Rightarrow> {})"

text \<open>
  The invariant of the merge: the inputs are well formed, the writer has received strictly
  increasing keys, and each of them is below every key the source and the dest still hold.
\<close>

definition inv3 ::
  "(Range \<times> ValueRecord list) list \<Rightarrow> (Range \<times> ValueRecord list) list \<Rightarrow> wcall list
     \<Rightarrow> iterator \<Rightarrow> iterator \<Rightarrow> bool" where
  "inv3 src dst log s d \<longleftrightarrow>
     wf_ranges src \<and> wf_ranges dst \<and> content_addressed src dst
     \<and> wf_iter s \<and> wf_iter d \<and> whole s \<subseteq> set src \<and> whole d \<subseteq> set dst
     \<and> sorted_wrt (<) (emitted_keys src dst log)
     \<and> (\<forall>k \<in> set (emitted_keys src dst log). \<forall>k' \<in> keys_ahead s \<union> keys_ahead d. k < k')"

definition Inv ::
  "(Range \<times> ValueRecord list) list \<Rightarrow> (Range \<times> ValueRecord list) list \<Rightarrow> merger \<Rightarrow> bool" where
  "Inv src dst m = inv3 src dst (written (writer m)) (source m) (dest m)"

definition finished_iterator :: iterator where
  "finished_iterator = \<lparr>cursor = Finished, later = [], failure = None\<rparr>"

text \<open>The invariant of the tail: the side that remains, the other side set aside.\<close>

definition Inv1 ::
  "(Range \<times> ValueRecord list) list \<Rightarrow> (Range \<times> ValueRecord list) list \<Rightarrow> side \<Rightarrow> merger
     \<Rightarrow> bool" where
  "Inv1 src dst sd m =
     (case sd of
        Source \<Rightarrow> inv3 src dst (written (writer m)) (source m) finished_iterator
      | Dest \<Rightarrow> inv3 src dst (written (writer m)) finished_iterator (dest m))"

text \<open>A fresh iterator over a list of ranges that ends with the given failure, if any.\<close>

definition stream :: "(Range \<times> ValueRecord list) list \<Rightarrow> string option \<Rightarrow> iterator" where
  "stream rs f = \<lparr>cursor = Fresh, later = rs, failure = f\<rparr>"

section \<open>Concrete inputs\<close>

text \<open>
  Records and ranges with one-byte keys and identities, and iterators placed at a header
  or inside a range, for evaluating the code at concrete inputs.
\<close>

definition mk_record :: "byte \<Rightarrow> byte \<Rightarrow> ValueRecord" where
  "mk_record k i = \<lparr>Key = [k], Identity = [i], Data = []\<rparr>"

definition mk_range :: "string \<Rightarrow> byte \<Rightarrow> byte \<Rightarrow> Range" where
  "mk_range i a b = \<lparr>ID = i, MinKey = [a], MaxKey = [b]\<rparr>"

definition at_header :: "Range \<Rightarrow> ValueRecord list \<Rightarrow> iterator" where
  "at_header r recs = \<lparr>cursor = AtHeader r recs, later = [], failure = None\<rparr>"

definition in_range :: "Range \<Rightarrow> ValueRecord \<Rightarrow> ValueRecord list \<Rightarrow> iterator" where
  "in_range r v recs = \<lparr>cursor = InRange r v recs, later = [], failure = None\<rparr>"

definition both_at_header_X :: merger where
  "both_at_header_X =
     \<lparr>ctx = None, writer = new_writer,
      base = new_iterator [(mk_range ''X'' 97 98, [mk_record 97 1, mk_record 98 2])],
      source = at_header (mk_range ''X'' 97 98) [mk_record 97 1, mk_record 98 2],
      dest = at_header (mk_range ''X'' 97 98) [mk_record 97 1, mk_record 98 2],
      haveSource = True, haveDest = True\<rparr>"

definition cancelled_before_start :: merger where
  "cancelled_before_start =
     \<lparr>ctx = Some 0, writer = new_writer, base = new_iterator [],
      source = new_iterator [(mk_range ''S'' 97 97, [mk_record 97 1])],
      dest = new_iterator [(mk_range ''D'' 98 98, [mk_record 98 2])],
      haveSource = False, haveDest = False\<rparr>"

text \<open>
  A context that is done after two polls: the first poll is that of the one iteration of
  the main loop, the second and the third are those of \<^verbatim>\<open>handleAll(m.dest)\<close>.
\<close>

definition cancelled_in_tail :: merger where
  "cancelled_in_tail =
     \<lparr>ctx = Some 2, writer = new_writer, base = new_iterator [],
      source = new_iterator [(mk_range ''S'' 97 97, [mk_record 97 1])],
      dest = new_iterator [(mk_range ''D'' 98 98, [mk_record 98 2]),
                           (mk_range ''E'' 99 99, [mk_record 99 3])],
      haveSource = False, haveDest = False\<rparr>"

definition tail_first_poll :: merger where
  "tail_first_poll = snd (mergeLoop (prime cancelled_in_tail))"

definition tail_second_poll :: merger where
  "tail_second_poll = snd (handleAll_body Dest tail_first_poll)"

definition disjoint_adds_dest_first :: "error option \<times> merger" where
  "disjoint_adds_dest_first =
     Merge None new_writer (new_iterator [])
       (new_iterator [(mk_range ''S'' 98 98, [mk_record 98 2])])
       (new_iterator [(mk_range ''D'' 97 97, [mk_record 97 1])])"

definition dest_key_before_source_range :: merger where
  "dest_key_before_source_range =
     \<lparr>ctx = None, writer = new_writer,
      base = in_range (mk_range ''B'' 97 98) (mk_record 98 2) [],
      source = at_header (mk_range ''S'' 99 99) [mk_record 99 3],
      dest = in_range (mk_range ''D'' 97 98) (mk_record 98 2) [],
      haveSource = True, haveDest = True\<rparr>"

definition same_key_added_twice :: "error option \<times> merger" where
  "same_key_added_twice =
     Merge None new_writer
       (new_iterator [(mk_range ''B'' 98 98, [mk_record 98 7])])
       (new_iterator [(mk_range ''S'' 97 97, [mk_record 97 7])])
       (new_iterator [(mk_range ''D'' 97 97, [mk_record 97 8])])"

definition two_ranges :: "(Range \<times> ValueRecord list) list" where
  "two_ranges =
     [(mk_range ''X'' 97 98, [mk_record 97 1, mk_record 98 2]),
      (mk_range ''Y'' 99 99, [mk_record 99 3])]"

definition conflicting_modifies :: "byte \<Rightarrow> merger" where
  "conflicting_modifies k =
     \<lparr>ctx = None, writer = new_writer,
      base = new_iterator [(mk_range ''B'' k k, [mk_record k 1])],
      source = new_iterator [(mk_range ''S'' k k, [mk_record k 2])],
      dest = new_iterator [(mk_range ''D'' k k, [mk_record k 3])],
      haveSource = False, haveDest = False\<rparr>"

text \<open>
  The source adds the key a, then source and dest both change the key b of the base: the
  conflict is met in the third iteration of the main loop, after one record was written.
\<close>

definition conflict_after_write :: merger where
  "conflict_after_write =
     \<lparr>ctx = None, writer = new_writer,
      base = new_iterator [(mk_range ''B'' 98 98, [mk_record 98 1])],
      source = new_iterator [(mk_range ''S'' 97 98, [mk_record 97 5, mk_record 98 2])],
      dest = new_iterator [(mk_range ''D'' 98 99, [mk_record 98 3, mk_record 99 4])],
      haveSource = False, haveDest = False\<rparr>"

definition conflict_second_iteration :: merger where
  "conflict_second_iteration = snd (mergeStep (prime conflict_after_write))"

definition conflict_third_iteration :: merger where
  "conflict_third_iteration = snd (mergeStep conflict_second_iteration)"

text \<open>
  The base holds a and d, the source deleted d, the dest deleted d and added c with the
  content d had.
\<close>

definition added_record_lost_in_tail :: "error option \<times> merger" where
  "added_record_lost_in_tail =
     Merge None new_writer
       (new_iterator [(mk_range ''B'' 97 100, [mk_record 97 1, mk_record 100 7])])
       (new_iterator [(mk_range ''S'' 97 97, [mk_record 97 1])])
       (new_iterator [(mk_range ''D'' 97 99, [mk_record 97 1, mk_record 99 7])])"

definition short_range_then_d :: iterator where
  "short_range_then_d =
     \<lparr>cursor = AtHeader (mk_range ''B1'' 97 99) [mk_record 97 1],
      later = [(mk_range ''B2'' 100 100, [mk_record 100 4])], failure = None\<rparr>"

definition base_X :: "(Range \<times> ValueRecord list) list" where
  "base_X = [(mk_range ''X'' 97 98, [mk_record 97 1, mk_record 98 2])]"

definition source_X_S :: "(Range \<times> ValueRecord list) list" where
  "source_X_S =
     [(mk_range ''X'' 97 98, [mk_record 97 1, mk_record 98 2]),
      (mk_range ''S'' 99 100, [mk_record 99 3, mk_record 100 4])]"

definition dest_X_D :: "(Range \<times> ValueRecord list) list" where
  "dest_X_D =
     [(mk_range ''X'' 97 98, [mk_record 97 1, mk_record 98 2]),
      (mk_range ''D'' 100 101, [mk_record 100 4, mk_record 101 5])]"

definition merged_X_S_D :: "error option \<times> merger" where
  "merged_X_S_D =
     Merge None \<lparr>written = [], budget = None\<rparr> (stream base_X None)
       (stream source_X_S None) (stream dest_X_D None)"

section \<open>Facts about the model\<close>

lemma bytes_Compare_less: "bytes_Compare a b < 0 \<longleftrightarrow> a < b"
  by (induction a b rule: bytes_Compare.induct) auto

lemma bytes_Compare_eq: "bytes_Compare a b = 0 \<longleftrightarrow> a = b"
  by (induction a b rule: bytes_Compare.induct) auto

lemma bytes_Compare_greater: "bytes_Compare a b > 0 \<longleftrightarrow> b < a"
  by (induction a b rule: bytes_Compare.induct) auto

lemma bytes_Compare_le: "bytes_Compare a b \<le> 0 \<longleftrightarrow> a \<le> b"
  using bytes_Compare_greater [of a b] by auto

lemma bytes_Compare_ge: "bytes_Compare a b \<ge> 0 \<longleftrightarrow> b \<le> a"
  using bytes_Compare_less [of a b] by auto

lemma writer_call_written:
  "written (snd (writer_call c w)) = (if budget w = Some 0 then written w else written w @ [c])"
  by (auto simp: writer_call_def split: option.splits nat.splits)

lemma writer_call_err: "fst (writer_call c w) = None \<longleftrightarrow> budget w \<noteq> Some 0"
  by (auto simp: writer_call_def split: option.splits nat.splits)

lemma writeRange_written:
  "written (snd (writeRange r w)) =
     (if budget w = Some 0 then written w else written w @ [WriteRange r])"
  by (auto simp: writeRange_def writer_call_def split: option.splits nat.splits)

lemma writeRange_err: "fst (writeRange r w) = None \<longleftrightarrow> budget w \<noteq> Some 0"
  by (auto simp: writeRange_def writer_call_def split: option.splits nat.splits)

lemma writeRecord_written:
  "written (snd (writeRecord v w)) =
     (if budget w = Some 0 then written w else written w @ [WriteRecord v])"
  by (auto simp: writeRecord_def writer_call_def split: option.splits nat.splits)

lemma writeRecord_err: "fst (writeRecord v w) = None \<longleftrightarrow> budget w \<noteq> Some 0"
  by (auto simp: writeRecord_def writer_call_def split: option.splits nat.splits)

lemma adv_frame [simp]:
  "base (source_Next m) = base m" "base (source_NextRange m) = base m"
  "base (dest_Next m) = base m" "base (dest_NextRange m) = base m"
  "writer (source_Next m) = writer m" "writer (source_NextRange m) = writer m"
  "writer (dest_Next m) = writer m" "writer (dest_NextRange m) = writer m"
  "ctx (source_Next m) = ctx m" "ctx (source_NextRange m) = ctx m"
  "ctx (dest_Next m) = ctx m" "ctx (dest_NextRange m) = ctx m"
  by (simp_all add: source_Next_def source_NextRange_def dest_Next_def dest_NextRange_def
      split: prod.splits)

lemma adv_have [simp]:
  "haveSource (source_Next m) = fst (Next (source m))"
  "haveSource (source_NextRange m) = fst (NextRange (source m))"
  "haveDest (dest_Next m) = fst (Next (dest m))"
  "haveDest (dest_NextRange m) = fst (NextRange (dest m))"
  "haveDest (source_Next m) = haveDest m" "haveDest (source_NextRange m) = haveDest m"
  "haveSource (dest_Next m) = haveSource m" "haveSource (dest_NextRange m) = haveSource m"
  by (simp_all add: source_Next_def source_NextRange_def dest_Next_def dest_NextRange_def
      split: prod.splits)

lemma handleBothRanges_same_id:
  "ID sr = ID dr \<Longrightarrow> handleBothRanges sr dr m =
     (case writeRange sr (writer m) of
        (Some err, w) \<Rightarrow> (Some err, m\<lparr>writer := w\<rparr>)
      | (None, w) \<Rightarrow> (None, dest_NextRange (source_NextRange (m\<lparr>writer := w\<rparr>))))"
  by (simp add: handleBothRanges_def)

lemma mergeStep_snd:
  "snd (mergeStep m) =
     (if fst (ctx_Done (ctx m)) then m\<lparr>ctx := snd (ctx_Done (ctx m))\<rparr>
      else snd (dispatch (m\<lparr>ctx := snd (ctx_Done (ctx m))\<rparr>)))"
  by (cases "ctx_Done (ctx m)"; cases "dispatch (m\<lparr>ctx := snd (ctx_Done (ctx m))\<rparr>)")
     (auto simp: mergeStep_def split: option.splits)

lemma mergeStep_same_id:
  assumes "cursor (source m) = AtHeader r recs" "cursor (dest m) = AtHeader r recs'"
    and "ctx m = None" "budget (writer m) = None"
    and "failure (source m) = None" "failure (dest m) = None" "Err (base m) = None"
  shows "mergeStep m =
     (None, dest_NextRange (source_NextRange
        (m\<lparr>writer := (writer m)\<lparr>written := written (writer m) @ [WriteRange r]\<rparr>\<rparr>)))"
proof -
  have d: "dispatch m = handleBothRanges r r m"
    using assms(1,2) by (simp add: dispatch_def Value_def)
  have w: "writeRange r (writer m) = (None, (writer m)\<lparr>written := written (writer m) @ [WriteRange r]\<rparr>)"
    using assms(4) by (simp add: writeRange_def writer_call_def)
  have e: "Err (snd (NextRange (source m))) = None" "Err (snd (NextRange (dest m))) = None"
    using assms(5,6) by (auto simp: Err_def NextRange_def split: cursor.splits list.splits)
  have m0: "m\<lparr>ctx := None\<rparr> = m"
    using assms(3) by (cases m) simp
  show ?thesis
    using assms(3,7) e
    by (simp add: mergeStep_def m0 d handleBothRanges_same_id w)
qed

lemma mergeLoop_same:
  assumes "source m = \<lparr>cursor = AtHeader r recs, later = rest, failure = None\<rparr>"
    and "dest m = \<lparr>cursor = AtHeader r recs, later = rest, failure = None\<rparr>"
    and "ctx m = None" "budget (writer m) = None" "Err (base m) = None"
    and "haveSource m" "haveDest m"
  shows "fst (mergeLoop m) = None
     \<and> written (writer (snd (mergeLoop m)))
         = written (writer m) @ map (WriteRange \<circ> fst) ((r, recs) # rest)
     \<and> \<not> haveSource (snd (mergeLoop m)) \<and> \<not> haveDest (snd (mergeLoop m))"
  using assms
proof (induction rest arbitrary: r recs m)
  case Nil
  let ?m' = "dest_NextRange (source_NextRange
        (m\<lparr>writer := (writer m)\<lparr>written := written (writer m) @ [WriteRange r]\<rparr>\<rparr>))"
  have s: "mergeStep m = (None, ?m')"
    using Nil by (intro mergeStep_same_id [where recs = recs and recs' = recs]) simp_all
  have h: "\<not> haveSource ?m'" "\<not> haveDest ?m'" using Nil by (simp_all add: NextRange_def)
  show ?case
    using Nil.prems(6,7) h
    by (simp add: mergeLoop.simps [of m] s mergeLoop.simps [of ?m'])
next
  case (Cons p rest)
  obtain r' recs' where p: "p = (r', recs')" by (cases p)
  let ?m' = "dest_NextRange (source_NextRange
        (m\<lparr>writer := (writer m)\<lparr>written := written (writer m) @ [WriteRange r]\<rparr>\<rparr>))"
  have s: "mergeStep m = (None, ?m')"
    using Cons.prems by (intro mergeStep_same_id [where recs = recs and recs' = recs]) simp_all
  have ih: "fst (mergeLoop ?m') = None
     \<and> written (writer (snd (mergeLoop ?m')))
         = written (writer ?m') @ map (WriteRange \<circ> fst) ((r', recs') # rest)
     \<and> \<not> haveSource (snd (mergeLoop ?m')) \<and> \<not> haveDest (snd (mergeLoop ?m'))"
    using Cons.prems p
    by (intro Cons.IH) (simp_all add: NextRange_def)
  show ?case
    using Cons.prems(6,7) ih p
    by (simp add: mergeLoop.simps [of m] s)
qed

lemma Err_not_conflict: "Err it \<noteq> Some ErrConflictFound"
  by (auto simp: Err_def split: cursor.splits)

lemma moveBaseToGERange_not_conflict:
  "moveBaseToGERange k b = (r, e, b') \<Longrightarrow> e \<noteq> Some ErrConflictFound"
proof (induction k b rule: moveBaseToGERange.induct)
  case (1 k b)
  show ?case
    using "1.prems" "1.IH"
    by (subst (asm) moveBaseToGERange.simps)
       (auto simp: Let_def Err_not_conflict split: if_splits prod.splits bool.splits)
qed

lemma moveBaseToGEKey_loop_not_conflict:
  "moveBaseToGEKey_loop k br b = (r, e, b') \<Longrightarrow> e \<noteq> Some ErrConflictFound"
proof (induction k br b rule: moveBaseToGEKey_loop.induct)
  case (1 k br b)
  show ?case
    using "1.prems" "1.IH"
    by (subst (asm) moveBaseToGEKey_loop.simps)
       (auto simp: Let_def Err_not_conflict split: if_splits prod.splits bool.splits option.splits)
qed

lemma moveBaseToGEKey_not_conflict:
  "moveBaseToGEKey k b = (r, e, b') \<Longrightarrow> e \<noteq> Some ErrConflictFound"
  by (auto simp: moveBaseToGEKey_def Let_def split: if_splits prod.splits option.splits
      dest: moveBaseToGERange_not_conflict moveBaseToGEKey_loop_not_conflict)

lemma writeRange_not_conflict: "fst (writeRange r w) \<noteq> Some ErrConflictFound"
  by (auto simp: writeRange_def split: prod.splits option.splits)

lemma writeRange_not_conflict': "writeRange r w = (e, w') \<Longrightarrow> e \<noteq> Some ErrConflictFound"
  using writeRange_not_conflict [of r w] by auto

lemma upd_base_eq: "m' = m\<lparr>base := b\<rparr> \<Longrightarrow> moveBaseToGEKey k (base m) = (bv, None, b) \<Longrightarrow> detected m m'"
  by (auto simp: detected_def)

lemma handleBothRanges_conflict:
  "handleBothRanges sr dr m = (Some ErrConflictFound, m') \<Longrightarrow> False"
  by (auto simp: handleBothRanges_def split: if_splits prod.splits option.splits
      dest: moveBaseToGERange_not_conflict writeRange_not_conflict')

lemma handleBothKeys_conflict:
  "handleBothKeys sv dv m = (Some ErrConflictFound, m') \<Longrightarrow> detected m m'"
  by (auto simp: handleBothKeys_def Let_def  split: if_splits prod.splits option.splits
      dest: moveBaseToGEKey_not_conflict intro: upd_base_eq)

lemma handleDestRangeSourceKey_conflict:
  "handleDestRangeSourceKey dr sv m = (Some ErrConflictFound, m') \<Longrightarrow> detected m m'"
  by (auto simp: handleDestRangeSourceKey_def Let_def  split: if_splits prod.splits option.splits
      dest: moveBaseToGEKey_not_conflict intro: upd_base_eq)

lemma handleSourceRangeDestKey_conflict:
  "handleSourceRangeDestKey sr dv m = (Some ErrConflictFound, m') \<Longrightarrow> detected m m'"
  by (auto simp: handleSourceRangeDestKey_def Let_def  split: if_splits prod.splits option.splits
      dest: moveBaseToGEKey_not_conflict intro: upd_base_eq)

lemma dispatch_conflict:
  "dispatch m = (Some ErrConflictFound, m') \<Longrightarrow> detected m m'"
  by (auto simp: dispatch_def split: prod.splits option.splits
      dest: handleBothRanges_conflict handleBothKeys_conflict
        handleDestRangeSourceKey_conflict handleSourceRangeDestKey_conflict)

lemma detected_ctx: "detected (m\<lparr>ctx := c\<rparr>) m' \<Longrightarrow> ctx m = c \<Longrightarrow> detected m m'"
  by (auto simp: detected_def)

lemma mergeStep_conflict:
  assumes "mergeStep m = (Some ErrConflictFound, m')"
  shows "writer m' = writer m \<and> source m' = source m \<and> dest m' = dest m
     \<and> haveSource m' = haveSource m \<and> haveDest m' = haveDest m
     \<and> (\<exists>k bv. moveBaseToGEKey k (base m) = (bv, None, base m'))"
proof -
  obtain a c where c: "ctx_Done (ctx m) = (a, c)" by (cases "ctx_Done (ctx m)")
  from assms c have "dispatch (m\<lparr>ctx := c\<rparr>) = (Some ErrConflictFound, m')"
    by (auto simp: mergeStep_def Err_not_conflict split: prod.splits option.splits bool.splits)
  from dispatch_conflict [OF this] show ?thesis
    by (simp add: detected_def)
qed

lemma loop_reaches_first:
  assumes "loop_reaches m1 m0" "haveSource m" "haveDest m" "mergeStep m = (None, m1)"
  shows "loop_reaches m m0"
  using assms
proof (induction rule: loop_reaches.induct)
  case (start m1)
  then show ?case by (blast intro: loop_reaches.intros)
next
  case (step m1 ma mb)
  then show ?case by (blast intro: loop_reaches.step)
qed

lemma mergeLoop_error:
  "mergeLoop m = (Some e, m') \<Longrightarrow>
     \<exists>m0. loop_reaches m m0 \<and> haveSource m0 \<and> haveDest m0 \<and> mergeStep m0 = (Some e, m')"
proof (induction m rule: mergeLoop.induct)
  case (1 m)
  from "1.prems" have h: "haveSource m \<and> haveDest m"
    by (subst (asm) mergeLoop.simps) (auto split: if_splits)
  show ?case
  proof (cases "mergeStep m")
    case (Pair r m1)
    show ?thesis
    proof (cases r)
      case None
      with Pair h "1.prems" have "mergeLoop m1 = (Some e, m')"
        by (subst (asm) mergeLoop.simps) simp
      with "1.IH" h Pair None
      obtain m0 where m0: "loop_reaches m1 m0" "haveSource m0" "haveDest m0"
        "mergeStep m0 = (Some e, m')" by auto
      have "loop_reaches m m0"
        using h Pair None m0(1) by (auto intro: loop_reaches_first)
      with m0 show ?thesis by blast
    next
      case (Some e')
      with Pair h "1.prems" have "mergeStep m = (Some e, m')"
        by (subst (asm) mergeLoop.simps) simp
      with h show ?thesis by (auto intro: loop_reaches.start)
    qed
  qed
qed

lemma handleAll_body_not_conflict:
  "handleAll_body sd m = (Returns e, m') \<Longrightarrow> e \<noteq> Some ErrConflictFound"
  by (auto simp: handleAll_body_def Err_not_conflict writeRange_def writeRecord_def
      split: if_splits prod.splits bool.splits option.splits)

lemma handleAll_not_conflict: "handleAll sd m = (e, m') \<Longrightarrow> e \<noteq> Some ErrConflictFound"
proof (induction sd m rule: handleAll.induct)
  case (1 sd m)
  obtain o1 m1 where b: "handleAll_body sd m = (o1, m1)" by (cases "handleAll_body sd m")
  show ?case
  proof (cases o1)
    case (Returns e1)
    with b "1.prems" have "e = e1" by (simp add: handleAll.simps [of sd m])
    with b Returns show ?thesis by (auto dest: handleAll_body_not_conflict)
  next
    case Continues
    with b "1.prems" have "handleAll sd m1 = (e, m')" by (simp add: handleAll.simps [of sd m])
    with "1.IH" [OF b [symmetric] Continues] show ?thesis .
  qed
qed

lemma mergeLoop_reaches: "loop_reaches m m0 \<Longrightarrow> mergeLoop m = mergeLoop m0"
proof (induction rule: loop_reaches.induct)
  case (start m)
  show ?case ..
next
  case (step m m1 m2)
  then show ?case by (simp add: mergeLoop.simps [of m1])
qed

lemma handleAll_reaches: "drain_reaches sd m m0 \<Longrightarrow> handleAll sd m = handleAll sd m0"
proof (induction rule: drain_reaches.induct)
  case (start sd m)
  show ?case ..
next
  case (step sd m m1 m2)
  then show ?case by (simp add: handleAll.simps [of sd m1])
qed

lemma mergeLoop_cancelled:
  "ctx m = Some 0 \<Longrightarrow> haveSource m \<Longrightarrow> haveDest m \<Longrightarrow> mergeLoop m = (Some ErrCanceled, m)"
  by (simp add: mergeLoop.simps [of m] mergeStep_def)

lemma handleAll_cancelled: "ctx m = Some 0 \<Longrightarrow> handleAll sd m = (Some ErrCanceled, m)"
  by (simp add: handleAll.simps [of sd m] handleAll_body_def)

text \<open>
  The conflict comes from the main loop only: when \<^verbatim>\<open>merge\<close> returns it, a handler
  returned it in some iteration, and \<^verbatim>\<open>merge\<close> returns the merger that handler left.
\<close>

lemma merge_conflict_in_loop:
  assumes "merge m = (Some ErrConflictFound, m')"
  shows "\<exists>m0 c. loop_reaches (prime m) m0 \<and> haveSource m0 \<and> haveDest m0
     \<and> ctx_Done (ctx m0) = (False, c)
     \<and> dispatch (m0\<lparr>ctx := c\<rparr>) = (Some ErrConflictFound, m')"
proof -
  have "mergeLoop (prime m) = (Some ErrConflictFound, m')"
  proof (cases "mergeLoop (prime m)")
    case (Pair e m1)
    show ?thesis
    proof (cases e)
      case None
      with Pair assms show ?thesis
        by (auto simp: merge_def split: prod.splits option.splits if_splits
            dest: handleAll_not_conflict)
    next
      case (Some e')
      with Pair assms show ?thesis by (simp add: merge_def)
    qed
  qed
  from mergeLoop_error [OF this] obtain m0 where m0: "loop_reaches (prime m) m0"
    "haveSource m0" "haveDest m0" "mergeStep m0 = (Some ErrConflictFound, m')" by blast
  obtain a c where c: "ctx_Done (ctx m0) = (a, c)" by (cases "ctx_Done (ctx m0)")
  from m0(4) c have "a = False \<and> dispatch (m0\<lparr>ctx := c\<rparr>) = (Some ErrConflictFound, m')"
    by (auto simp: mergeStep_def Err_not_conflict split: prod.splits option.splits bool.splits)
  with m0 c show ?thesis by blast
qed

lemma find_Some_dropWhile:
  "find P xs = Some x \<Longrightarrow> \<exists>rest. dropWhile (\<lambda>y. \<not> P y) xs = x # rest"
  by (induction xs) (auto split: if_splits)

lemma moveBaseToGERange_unfold:
  "moveBaseToGERange k b =
     (if snd (Value b) \<noteq> None \<and> bytes_Compare (MaxKey (the (snd (Value b)))) k \<ge> 0
      then (snd (Value b), None, b)
      else (case NextRange b of
              (True, b') \<Rightarrow> moveBaseToGERange k b'
            | (False, b') \<Rightarrow> (None, Err b', b')))"
  by (subst moveBaseToGERange.simps) (simp add: Let_def)

lemma moveBaseToGERange_spec:
  "moveBaseToGERange k b = (r, e, b1) \<Longrightarrow>
     ahead b1 = dropWhile (\<lambda>p. \<not> bytes_Compare (MaxKey (fst p)) k \<ge> 0) (ahead b)
     \<and> r = map_option fst (ge_range k b)
     \<and> (r \<noteq> None \<longrightarrow> e = None \<and> snd (Value b1) = r)
     \<and> (r = None \<longrightarrow> cursor b1 = Finished)"
proof (induction k b arbitrary: r e b1 rule: moveBaseToGERange.induct)
  case (1 k b)
  show ?case
  proof (cases "snd (Value b) \<noteq> None \<and> bytes_Compare (MaxKey (the (snd (Value b)))) k \<ge> 0")
    case True
    with "1.prems" have "r = snd (Value b)" "e = None" "b1 = b"
      by (auto simp add: moveBaseToGERange_unfold [of k b])
    with True show ?thesis
      by (auto simp: ahead_def ge_range_def Value_def split: cursor.splits)
  next
    case False
    obtain ok b' where n: "NextRange b = (ok, b')" by (cases "NextRange b")
    show ?thesis
    proof (cases ok)
      case True
      with False n "1.prems" have m: "moveBaseToGERange k b' = (r, e, b1)"
        by (auto simp add: moveBaseToGERange_unfold [of k b])
      have ih: "ahead b1 = dropWhile (\<lambda>p. \<not> bytes_Compare (MaxKey (fst p)) k \<ge> 0) (ahead b')
         \<and> r = map_option fst (ge_range k b')
         \<and> (r \<noteq> None \<longrightarrow> e = None \<and> snd (Value b1) = r)
         \<and> (r = None \<longrightarrow> cursor b1 = Finished)"
        using "1.IH" [OF refl _ n [symmetric] _ m] False True by simp
      have a: "dropWhile (\<lambda>p. \<not> bytes_Compare (MaxKey (fst p)) k \<ge> 0) (ahead b) = dropWhile (\<lambda>p. \<not> bytes_Compare (MaxKey (fst p)) k \<ge> 0) (ahead b')"
        "ge_range k b = ge_range k b'"
        using False n True
        by (auto simp: ahead_def ge_range_def NextRange_def Value_def split: cursor.splits list.splits)
      with ih show ?thesis by simp
    next
      case f: False
      with False n "1.prems" have "r = None" "e = Err b'" "b1 = b'"
        by (auto simp add: moveBaseToGERange_unfold [of k b])
      with False n f show ?thesis
       by (auto simp: ahead_def ge_range_def NextRange_def Value_def split: cursor.splits list.splits)
    qed
  qed
qed

lemma moveBaseToGEKey_loop_unfold:
  "moveBaseToGEKey_loop k baseRange b =
     (if fst (Value b) \<noteq> None \<and> bytes_Compare k (Key (the (fst (Value b)))) \<le> 0
      then (fst (Value b), None, b)
      else (case Next b of
              (False, b') \<Rightarrow> (None, Err b', b')
            | (True, b') \<Rightarrow>
                (case (snd (Value b), baseRange) of
                   (Some ir, Some br) \<Rightarrow>
                     if ID ir \<noteq> ID br then (None, Err b', b')
                     else moveBaseToGEKey_loop k baseRange b'
                 | _ \<Rightarrow> (None, Some NilDereference, b'))))"
  by (subst moveBaseToGEKey_loop.simps)
     (auto simp: Let_def split: prod.splits bool.splits option.splits)

text \<open>At the header of another range the loop gives up.\<close>

lemma loop_other_header:
  assumes "cursor b = AtHeader r2 recs2" "ID r2 \<noteq> ID r"
  shows "fst (moveBaseToGEKey_loop k (Some r) b) = None"
  using assms
  by (subst moveBaseToGEKey_loop_unfold)
     (auto simp: Value_def split: prod.splits bool.splits)

lemma loop_finished:
  assumes "cursor b = Finished"
  shows "fst (moveBaseToGEKey_loop k br b) = None"
  using assms
  by (subst moveBaseToGEKey_loop_unfold)
     (auto simp: Value_def Next_def NextRange_def split: prod.splits bool.splits)

lemma loop_end_of_range:
  assumes "cursor b = AtHeader r [] \<or> cursor b = InRange r v []"
    and "distinct (map (\<lambda>p. ID (fst p)) (ahead b))" "Next b = (True, b')"
  shows "fst (moveBaseToGEKey_loop k (Some r) b') = None"
proof -
  from assms obtain r2 recs2 where "cursor b' = AtHeader r2 recs2" "ID r2 \<noteq> ID r"
    by (auto simp: Next_def NextRange_def ahead_def split: list.splits)
  then show ?thesis by (rule loop_other_header)
qed

lemma loop_in_range:
  assumes "cursor b = InRange r v recs" "distinct (map (\<lambda>p. ID (fst p)) (ahead b))"
  shows "fst (moveBaseToGEKey_loop k (Some r) b)
           = find (\<lambda>v. bytes_Compare k (Key v) \<le> 0) (v # recs)"
  using assms
proof (induction recs arbitrary: b v)
  case Nil
  show ?case
  proof (cases "bytes_Compare k (Key v) \<le> 0")
    case True
    with Nil show ?thesis
      by (subst moveBaseToGEKey_loop_unfold) (simp add: Value_def)
  next
    case False
    obtain ok b' where n: "Next b = (ok, b')" by (cases "Next b")
    show ?thesis
    proof (cases ok)
      case True
      with n Nil have "fst (moveBaseToGEKey_loop k (Some r) b') = None"
        by (intro loop_end_of_range [of b r v]) simp_all
      with False n True Nil show ?thesis
        by (subst moveBaseToGEKey_loop_unfold) (simp add: Value_def)
    next
      case f: False
      with False n Nil show ?thesis
        by (subst moveBaseToGEKey_loop_unfold) (simp add: Value_def)
    qed
  qed
next
  case (Cons v' recs)
  let ?b' = "b\<lparr>cursor := InRange r v' recs\<rparr>"
  have n: "Next b = (True, ?b')"
    using Cons.prems by (simp add: Next_def)
  have ih: "fst (moveBaseToGEKey_loop k (Some r) ?b')
           = find (\<lambda>v. bytes_Compare k (Key v) \<le> 0) (v' # recs)"
    using Cons.prems by (intro Cons.IH) (simp_all add: ahead_def)
  show ?case
  proof (cases "bytes_Compare k (Key v) \<le> 0")
    case True
    with Cons.prems show ?thesis
      by (subst moveBaseToGEKey_loop_unfold) (simp add: Value_def)
  next
    case False
    with n ih Cons.prems show ?thesis
      by (subst moveBaseToGEKey_loop_unfold) (simp add: Value_def)
  qed
qed

lemma loop_at_header:
  assumes "cursor b = AtHeader r recs" "distinct (map (\<lambda>p. ID (fst p)) (ahead b))"
  shows "fst (moveBaseToGEKey_loop k (Some r) b)
           = find (\<lambda>v. bytes_Compare k (Key v) \<le> 0) recs"
proof (cases recs)
  case Nil
  obtain ok b' where n: "Next b = (ok, b')" by (cases "Next b")
  show ?thesis
  proof (cases ok)
    case True
    with n Nil assms have "fst (moveBaseToGEKey_loop k (Some r) b') = None"
      by (intro loop_end_of_range [of b r]) simp_all
    with n True Nil assms show ?thesis
      by (subst moveBaseToGEKey_loop_unfold) (simp add: Value_def)
  next
    case False
    with n Nil assms show ?thesis
      by (subst moveBaseToGEKey_loop_unfold) (simp add: Value_def)
  qed
next
  case (Cons v recs')
  let ?b' = "b\<lparr>cursor := InRange r v recs'\<rparr>"
  have n: "Next b = (True, ?b')"
    using Cons assms by (simp add: Next_def)
  have "fst (moveBaseToGEKey_loop k (Some r) ?b')
           = find (\<lambda>v. bytes_Compare k (Key v) \<le> 0) (v # recs')"
    using assms Cons by (intro loop_in_range) (simp_all add: ahead_def)
  with n Cons assms show ?thesis
    by (subst moveBaseToGEKey_loop_unfold) (simp add: Value_def)
qed

lemma loop_in_ge_range:
  assumes "ahead b = (r, recs) # rest" "snd (Value b) = Some r"
    and "distinct (map (\<lambda>p. ID (fst p)) (ahead b))"
  shows "fst (moveBaseToGEKey_loop k (Some r) b)
           = find (\<lambda>v. bytes_Compare k (Key v) \<le> 0) recs"
proof (cases "cursor b")
  case (AtHeader r' recs')
  with assms show ?thesis by (simp add: loop_at_header ahead_def)
next
  case (InRange r' v recs')
  with assms(1,2) have "r' = r" "recs = v # recs'" by (simp_all add: ahead_def Value_def)
  with InRange assms(3) show ?thesis by (simp add: loop_in_range)
qed (use assms in \<open>simp_all add: Value_def\<close>)

lemma strict_sorted_hd_le:
  "sorted_wrt (<) xs \<Longrightarrow> x \<in> set xs \<Longrightarrow> hd xs \<le> (x::'a::linorder)"
  by (cases xs) (auto simp: less_imp_le)

lemma strict_sorted_le_last:
  "sorted_wrt (<) xs \<Longrightarrow> x \<in> set xs \<Longrightarrow> (x::'a::linorder) \<le> last xs"
  by (induction xs) (auto simp: less_imp_le)

lemma wf_range_keys:
  assumes "wf_range r recs" "v \<in> set recs"
  shows "MinKey r \<le> Key v \<and> Key v \<le> MaxKey r"
proof -
  from assms have s: "sorted_wrt (<) (map Key recs)" and n: "recs \<noteq> []"
    and mn: "MinKey r = Key (hd recs)" and mx: "MaxKey r = Key (last recs)"
    by (simp_all add: wf_range_def bytes_Compare_less)
  from n have h: "Key (hd recs) = hd (map Key recs)" "Key (last recs) = last (map Key recs)"
    by (simp_all add: hd_map last_map)
  from assms(2) have m: "Key v \<in> set (map Key recs)" by simp
  from s m show ?thesis
    unfolding mn mx h
    by (simp only: strict_sorted_hd_le strict_sorted_le_last)
qed

lemma wf_range_bounds: "wf_range r recs \<Longrightarrow> MinKey r \<le> MaxKey r"
  using wf_range_keys [of r recs "hd recs"] by (auto simp: wf_range_def)

lemma ranges_after_keys:
  "ranges_after k rs \<Longrightarrow> p \<in> set rs \<Longrightarrow> v \<in> set (snd p) \<Longrightarrow> k < Key v"
proof (induction rs arbitrary: k)
  case Nil
  then show ?case by simp
next
  case (Cons q rs)
  obtain r recs where q: "q = (r, recs)" by (cases q)
  from Cons.prems(1) q have a: "k < MinKey r" "wf_range r recs" "ranges_after (MaxKey r) rs"
    by (simp_all add: bytes_Compare_less)
  show ?case
  proof (cases "p = q")
    case True
    with q Cons.prems(3) a wf_range_keys [of r recs v] show ?thesis by auto
  next
    case False
    with Cons.prems have "p \<in> set rs" by simp
    from Cons.IH [OF a(3) this Cons.prems(3)] have "MaxKey r < Key v" .
    with a(1) wf_range_bounds [OF a(2)] show ?thesis by simp
  qed
qed

lemma ranges_after_mono: "ranges_after k rs \<Longrightarrow> k' \<le> k \<Longrightarrow> ranges_after k' rs"
  by (cases rs) (auto simp: bytes_Compare_less)

lemma wf_iter_NextRange: "wf_iter it \<Longrightarrow> wf_iter (snd (NextRange it))"
  by (auto simp: wf_iter_def NextRange_def wf_ranges_def split: cursor.splits list.splits)

lemma wf_iter_Next: "wf_iter it \<Longrightarrow> wf_iter (snd (Next it))"
proof (cases "cursor it")
  case (AtHeader r recs)
  assume w: "wf_iter it"
  show ?thesis
  proof (cases recs)
    case Nil
    with AtHeader w show ?thesis by (simp add: wf_iter_def wf_range_def)
  next
    case (Cons v recs')
    with AtHeader w show ?thesis
      by (auto simp: Next_def wf_iter_def wf_range_def bytes_Compare_less split: if_splits)
  qed
next
  case (InRange r v recs)
  assume w: "wf_iter it"
  show ?thesis
  proof (cases recs)
    case Nil
    with InRange w wf_iter_NextRange [of it] show ?thesis by (simp add: Next_def)
  next
    case (Cons v' recs')
    with InRange w show ?thesis
      by (auto simp: Next_def wf_iter_def split: if_splits)
  qed
qed (use wf_iter_NextRange [of it] in \<open>simp_all add: Next_def\<close>)

lemma ahead_NextRange: "set (ahead (snd (NextRange it))) \<subseteq> set (later it)"
  by (auto simp: ahead_def NextRange_def split: cursor.splits list.splits)

lemma keys_ahead_NextRange: "keys_ahead (snd (NextRange it)) \<subseteq> keys_ahead it"
  by (auto simp: keys_ahead_def ahead_def NextRange_def split: cursor.splits list.splits)

lemma keys_ahead_Next: "keys_ahead (snd (Next it)) \<subseteq> keys_ahead it"
  by (auto simp: keys_ahead_def ahead_def Next_def NextRange_def split: cursor.splits list.splits)

lemma whole_NextRange: "whole (snd (NextRange it)) \<subseteq> whole it"
  by (auto simp: whole_def NextRange_def split: cursor.splits list.splits)

lemma whole_Next: "whole (snd (Next it)) \<subseteq> whole it"
  by (auto simp: whole_def Next_def NextRange_def split: cursor.splits list.splits)

text \<open>Past a whole range, and past a record.\<close>

lemma past_range:
  assumes "wf_iter it" "cursor it = AtHeader r recs" "k \<in> keys_ahead (snd (NextRange it))"
  shows "MaxKey r < k"
proof -
  from assms(3) obtain p v where "p \<in> set (later it)" "v \<in> set (snd p)" "k = Key v"
    using ahead_NextRange [of it] by (auto simp: keys_ahead_def)
  moreover from assms(1,2) have "ranges_after (MaxKey r) (later it)"
    by (simp add: wf_iter_def)
  ultimately show ?thesis by (auto dest: ranges_after_keys)
qed

lemma past_record:
  assumes "wf_iter it" "cursor it = InRange r v recs" "k \<in> keys_ahead (snd (Next it))"
  shows "Key v < k"
proof (cases recs)
  case Nil
  with assms(2) have n: "Next it = NextRange it" by (simp add: Next_def)
  with assms(3) obtain p u where "p \<in> set (later it)" "u \<in> set (snd p)" "k = Key u"
    using ahead_NextRange [of it] by (auto simp: keys_ahead_def)
  moreover from assms(1,2) Nil have "ranges_after (Key v) (later it)"
    by (auto simp: wf_iter_def)
  ultimately show ?thesis by (auto dest: ranges_after_keys)
next
  case (Cons v' recs')
  with assms(2) have a: "ahead (snd (Next it)) = (r, v' # recs') # later it"
    by (simp add: Next_def ahead_def)
  from assms(1,2) Cons have s: "\<forall>u \<in> set (v' # recs'). Key v < Key u"
    and l: "ranges_after (MaxKey r) (later it)" and m: "MaxKey r = Key (last (v' # recs'))"
    and ss: "sorted_wrt (<) (map Key (v' # recs'))"
    by (auto simp: wf_iter_def)
  from assms(3) a consider u where "u \<in> set (v' # recs')" "k = Key u"
    | p u where "p \<in> set (later it)" "u \<in> set (snd p)" "k = Key u"
    by (auto simp: keys_ahead_def)
  then show ?thesis
  proof cases
    case 1
    with s show ?thesis by blast
  next
    case 2
    with l have "MaxKey r < k" by (auto dest: ranges_after_keys)
    moreover have "Key v < MaxKey r"
      using s m by (metis last_in_set list.distinct(1))
    ultimately show ?thesis by simp
  qed
qed

text \<open>Nothing ahead is below the front of an iterator.\<close>

lemma front_header:
  assumes "wf_iter it" "cursor it = AtHeader r recs" "k \<in> keys_ahead it"
  shows "MinKey r \<le> k"
proof -
  from assms(1,2) have w: "wf_range r recs" and l: "ranges_after (MaxKey r) (later it)"
    by (simp_all add: wf_iter_def)
  from assms(2,3) consider u where "u \<in> set recs" "k = Key u"
    | p u where "p \<in> set (later it)" "u \<in> set (snd p)" "k = Key u"
    by (auto simp: keys_ahead_def ahead_def)
  then show ?thesis
  proof cases
    case 1
    with w show ?thesis by (auto dest: wf_range_keys)
  next
    case 2
    with l have "MaxKey r < k" by (auto dest: ranges_after_keys)
    with wf_range_bounds [OF w] show ?thesis by simp
  qed
qed

lemma front_record:
  assumes "wf_iter it" "cursor it = InRange r v recs" "k \<in> keys_ahead it"
  shows "Key v \<le> k"
proof -
  from assms(1,2) have s: "\<forall>u \<in> set recs. Key v < Key u"
    and l: "ranges_after (MaxKey r) (later it)" and m: "MaxKey r = Key (last (v # recs))"
    by (auto simp: wf_iter_def)
  have vm: "Key v \<le> MaxKey r"
    using s m by (cases "recs = []") (auto simp: less_imp_le)
  from assms(2,3) consider "k = Key v" | u where "u \<in> set recs" "k = Key u"
    | p u where "p \<in> set (later it)" "u \<in> set (snd p)" "k = Key u"
    by (auto simp: keys_ahead_def ahead_def)
  then show ?thesis
  proof cases
    case 1
    then show ?thesis by simp
  next
    case 2
    with s show ?thesis by (auto simp: less_imp_le)
  next
    case 3
    with l have "MaxKey r < k" by (auto dest: ranges_after_keys)
    with vm show ?thesis by simp
  qed
qed

lemma ranges_after_distinct:
  "ranges_after k rs \<Longrightarrow> distinct (map fst rs) \<and> (\<forall>p \<in> set rs. k < MinKey (fst p))"
proof (induction rs arbitrary: k)
  case Nil
  then show ?case by simp
next
  case (Cons q rs)
  obtain r recs where q: "q = (r, recs)" by (cases q)
  from Cons.prems q have a: "k < MinKey r" "wf_range r recs" "ranges_after (MaxKey r) rs"
    by (simp_all add: bytes_Compare_less)
  from Cons.IH [OF a(3)] have ih: "distinct (map fst rs)" "\<forall>p \<in> set rs. MaxKey r < MinKey (fst p)"
    by simp_all
  from ih(2) wf_range_bounds [OF a(2)] have "r \<notin> fst ` set rs" by auto
  moreover from ih(2) a(1) wf_range_bounds [OF a(2)] have "\<forall>p \<in> set rs. k < MinKey (fst p)"
    by fastforce
  ultimately show ?case using q ih(1) a(1) by simp
qed

lemma wf_ranges_distinct: "wf_ranges rs \<Longrightarrow> distinct (map fst rs)"
proof (cases rs)
  case Nil
  then show ?thesis by simp
next
  case (Cons q rest)
  assume w: "wf_ranges rs"
  obtain r recs where q: "q = (r, recs)" by (cases q)
  from w Cons q have a: "wf_range r recs" "ranges_after (MaxKey r) rest"
    by (simp_all add: wf_ranges_def)
  from ranges_after_distinct [OF a(2)] wf_range_bounds [OF a(1)]
  have "distinct (map fst rest)" "r \<notin> fst ` set rest" by auto
  with Cons q show ?thesis by simp
qed

lemma range_records_eq:
  assumes "wf_ranges src" "wf_ranges dst" "content_addressed src dst"
    and "(r, recs) \<in> set src \<union> set dst"
  shows "range_records src dst r = recs"
proof (cases "map_of src r")
  case None
  with assms(4) have "(r, recs) \<in> set dst"
    by (auto simp: map_of_eq_None_iff image_iff)
  with assms(2) have "map_of dst r = Some recs"
    by (simp add: wf_ranges_distinct)
  with None show ?thesis by (simp add: range_records_def map_add_def)
next
  case (Some recs0)
  then have i: "(r, recs0) \<in> set src" by (rule map_of_SomeD)
  have "recs0 = recs"
  proof (cases "(r, recs) \<in> set src")
    case True
    with assms(1) have "map_of src r = Some recs" by (simp add: wf_ranges_distinct)
    with Some show ?thesis by simp
  next
    case False
    with assms(4) have "(r, recs) \<in> set dst" by simp
    with i assms(3) show ?thesis by (auto simp: content_addressed_def)
  qed
  with Some show ?thesis by (simp add: range_records_def map_add_def)
qed

lemma emitted_keys_snoc:
  "emitted_keys src dst (log @ [x]) = emitted_keys src dst log @ keys_of src dst x"
  by (simp add: emitted_keys_def)

text \<open>Writing an item whose keys are ahead, and below everything that stays ahead.\<close>

lemma write_item:
  assumes "inv3 src dst log s d"
    and "wf_iter s'" "wf_iter d'" "whole s' \<subseteq> whole s" "whole d' \<subseteq> whole d"
    and "keys_ahead s' \<subseteq> keys_ahead s" "keys_ahead d' \<subseteq> keys_ahead d"
    and "set (keys_of src dst x) \<subseteq> keys_ahead s \<union> keys_ahead d"
    and "sorted_wrt (<) (keys_of src dst x)"
    and "\<forall>k \<in> set (keys_of src dst x). \<forall>k' \<in> keys_ahead s' \<union> keys_ahead d'. k < k'"
  shows "inv3 src dst (log @ [x]) s' d'"
proof -
  from assms(1) have e: "sorted_wrt (<) (emitted_keys src dst log)"
    and b: "\<forall>k \<in> set (emitted_keys src dst log). \<forall>k' \<in> keys_ahead s \<union> keys_ahead d. k < k'"
    by (simp_all add: inv3_def)
  from b assms(8) have 1: "\<forall>k \<in> set (emitted_keys src dst log). \<forall>k' \<in> set (keys_of src dst x). k < k'"
    by blast
  from b assms(6,7) have 2: "\<forall>k \<in> set (emitted_keys src dst log). \<forall>k' \<in> keys_ahead s' \<union> keys_ahead d'. k < k'"
    by blast
  from e 1 assms(9) have "sorted_wrt (<) (emitted_keys src dst (log @ [x]))"
    by (simp add: emitted_keys_snoc sorted_wrt_append)
  moreover from 2 assms(10)
  have "\<forall>k \<in> set (emitted_keys src dst (log @ [x])). \<forall>k' \<in> keys_ahead s' \<union> keys_ahead d'. k < k'"
    by (auto simp: emitted_keys_snoc)
  ultimately show ?thesis
    using assms(1-5) by (auto simp: inv3_def)
qed

lemma inv3_advance:
  assumes "inv3 src dst log s d"
  shows "inv3 src dst log (snd (Next s)) d" "inv3 src dst log (snd (NextRange s)) d"
    "inv3 src dst log s (snd (Next d))" "inv3 src dst log s (snd (NextRange d))"
  using assms wf_iter_Next [of s] wf_iter_NextRange [of s] wf_iter_Next [of d]
    wf_iter_NextRange [of d] whole_Next [of s] whole_NextRange [of s] whole_Next [of d]
    whole_NextRange [of d] keys_ahead_Next [of s] keys_ahead_NextRange [of s]
    keys_ahead_Next [of d] keys_ahead_NextRange [of d]
  unfolding inv3_def by blast+

text \<open>The keys of the item an iterator is at.\<close>

lemma header_item:
  assumes "wf_ranges src" "wf_ranges dst" "content_addressed src dst"
    and "wf_iter it" "whole it \<subseteq> set src \<union> set dst" "cursor it = AtHeader r recs"
  shows "keys_of src dst (WriteRange r) = map Key recs"
    and "set (keys_of src dst (WriteRange r)) \<subseteq> keys_ahead it"
    and "sorted_wrt (<) (keys_of src dst (WriteRange r))"
    and "\<forall>k \<in> set (keys_of src dst (WriteRange r)). k \<le> MaxKey r"
proof -
  from assms(5,6) have "(r, recs) \<in> set src \<union> set dst" by (auto simp: whole_def)
  from range_records_eq [OF assms(1-3) this]
  show k: "keys_of src dst (WriteRange r) = map Key recs" by (simp add: keys_of_def)
  from assms(6) show "set (keys_of src dst (WriteRange r)) \<subseteq> keys_ahead it"
    by (auto simp: k keys_ahead_def ahead_def)
  from assms(4,6) have w: "wf_range r recs" by (simp add: wf_iter_def)
  then show "sorted_wrt (<) (keys_of src dst (WriteRange r))"
    by (simp add: k wf_range_def bytes_Compare_less)
  from w show "\<forall>k \<in> set (keys_of src dst (WriteRange r)). k \<le> MaxKey r"
    by (auto simp: k dest: wf_range_keys)
qed

lemma record_item:
  assumes "cursor it = InRange r v recs"
  shows "set (keys_of src dst (WriteRecord v)) \<subseteq> keys_ahead it"
    and "sorted_wrt (<) (keys_of src dst (WriteRecord v))"
  using assms by (simp_all add: keys_of_def keys_ahead_def ahead_def)

lemma below_header:
  "wf_iter d \<Longrightarrow> cursor d = AtHeader dr recs \<Longrightarrow> x < MinKey dr \<Longrightarrow> \<forall>k \<in> keys_ahead d. x < k"
  using front_header [of d dr recs] by fastforce

lemma below_record:
  "wf_iter d \<Longrightarrow> cursor d = InRange r dv recs \<Longrightarrow> x < Key dv \<Longrightarrow> \<forall>k \<in> keys_ahead d. x < k"
  using front_record [of d r dv recs] by fastforce

lemma inv3_parts:
  assumes "inv3 src dst log s d"
  shows "wf_ranges src" "wf_ranges dst" "content_addressed src dst" "wf_iter s" "wf_iter d"
    "whole s \<subseteq> set src \<union> set dst" "whole d \<subseteq> set src \<union> set dst"
  using assms by (auto simp: inv3_def)

lemma write_range_source:
  assumes i: "inv3 src dst log s d" and c: "cursor s = AtHeader sr recs"
    and b: "\<forall>k \<in> keys_ahead d. MaxKey sr < k"
  shows "inv3 src dst (log @ [WriteRange sr]) (snd (NextRange s)) d"
proof (rule write_item [OF i])
  note p = inv3_parts [OF i]
  note h = header_item [OF p(1-3) p(4) p(6) c]
  show "wf_iter (snd (NextRange s))" using p(4) by (rule wf_iter_NextRange)
  show "wf_iter d" by (rule p(5))
  show "whole (snd (NextRange s)) \<subseteq> whole s" by (rule whole_NextRange)
  show "keys_ahead (snd (NextRange s)) \<subseteq> keys_ahead s" by (rule keys_ahead_NextRange)
  show "set (keys_of src dst (WriteRange sr)) \<subseteq> keys_ahead s \<union> keys_ahead d"
    using h(2) by blast
  show "sorted_wrt (<) (keys_of src dst (WriteRange sr))" by (rule h(3))
  show "\<forall>k \<in> set (keys_of src dst (WriteRange sr)).
          \<forall>k' \<in> keys_ahead (snd (NextRange s)) \<union> keys_ahead d. k < k'"
    using h(4) b past_range [OF p(4) c] by (blast intro: le_less_trans)
qed simp_all

lemma write_range_dest:
  assumes i: "inv3 src dst log s d" and c: "cursor d = AtHeader dr recs"
    and b: "\<forall>k \<in> keys_ahead s. MaxKey dr < k"
  shows "inv3 src dst (log @ [WriteRange dr]) s (snd (NextRange d))"
proof (rule write_item [OF i])
  note p = inv3_parts [OF i]
  note h = header_item [OF p(1-3) p(5) p(7) c]
  show "wf_iter (snd (NextRange d))" using p(5) by (rule wf_iter_NextRange)
  show "wf_iter s" by (rule p(4))
  show "whole (snd (NextRange d)) \<subseteq> whole d" by (rule whole_NextRange)
  show "keys_ahead (snd (NextRange d)) \<subseteq> keys_ahead d" by (rule keys_ahead_NextRange)
  show "set (keys_of src dst (WriteRange dr)) \<subseteq> keys_ahead s \<union> keys_ahead d"
    using h(2) by blast
  show "sorted_wrt (<) (keys_of src dst (WriteRange dr))" by (rule h(3))
  show "\<forall>k \<in> set (keys_of src dst (WriteRange dr)).
          \<forall>k' \<in> keys_ahead s \<union> keys_ahead (snd (NextRange d)). k < k'"
    using h(4) b past_range [OF p(5) c] by (blast intro: le_less_trans)
qed simp_all

lemma write_range_both:
  assumes i: "inv3 src dst log s d" and cs: "cursor s = AtHeader sr recs"
    and cd: "cursor d = AtHeader dr recs'" and m: "MaxKey sr = MaxKey dr"
  shows "inv3 src dst (log @ [WriteRange sr]) (snd (NextRange s)) (snd (NextRange d))"
    and "inv3 src dst (log @ [WriteRange dr]) (snd (NextRange s)) (snd (NextRange d))"
proof -
  note p = inv3_parts [OF i]
  note hs = header_item [OF p(1-3) p(4) p(6) cs]
  note hd = header_item [OF p(1-3) p(5) p(7) cd]
  have a: "\<forall>k' \<in> keys_ahead (snd (NextRange s)) \<union> keys_ahead (snd (NextRange d)). MaxKey sr < k'"
    using past_range [OF p(4) cs] past_range [OF p(5) cd] m by auto
  have a': "\<forall>k' \<in> keys_ahead (snd (NextRange s)) \<union> keys_ahead (snd (NextRange d)). MaxKey dr < k'"
    using a m by simp
  show "inv3 src dst (log @ [WriteRange sr]) (snd (NextRange s)) (snd (NextRange d))"
  proof (rule write_item [OF i])
    show "set (keys_of src dst (WriteRange sr)) \<subseteq> keys_ahead s \<union> keys_ahead d"
      using hs(2) by blast
    show "\<forall>k \<in> set (keys_of src dst (WriteRange sr)).
          \<forall>k' \<in> keys_ahead (snd (NextRange s)) \<union> keys_ahead (snd (NextRange d)). k < k'"
      using hs(4) a by (blast intro: le_less_trans)
  qed (simp_all add: wf_iter_NextRange p whole_NextRange keys_ahead_NextRange hs(3))
  show "inv3 src dst (log @ [WriteRange dr]) (snd (NextRange s)) (snd (NextRange d))"
  proof (rule write_item [OF i])
    show "set (keys_of src dst (WriteRange dr)) \<subseteq> keys_ahead s \<union> keys_ahead d"
      using hd(2) by blast
    show "\<forall>k \<in> set (keys_of src dst (WriteRange dr)).
          \<forall>k' \<in> keys_ahead (snd (NextRange s)) \<union> keys_ahead (snd (NextRange d)). k < k'"
      using hd(4) a' by (blast intro: le_less_trans)
  qed (simp_all add: wf_iter_NextRange p whole_NextRange keys_ahead_NextRange hd(3))
qed

lemma same_id_same_max:
  assumes i: "inv3 src dst log s d" and cs: "cursor s = AtHeader sr recs"
    and cd: "cursor d = AtHeader dr recs'" and m: "ID sr = ID dr"
  shows "MaxKey sr = MaxKey dr"
proof -
  from i cs have "(sr, recs) \<in> set src" by (auto simp: inv3_def whole_def)
  moreover from i cd have "(dr, recs') \<in> set dst" by (auto simp: inv3_def whole_def)
  moreover from i have "content_addressed src dst" by (simp add: inv3_def)
  ultimately show ?thesis using m by (auto simp: content_addressed_def)
qed

lemma write_record_source:
  assumes i: "inv3 src dst log s d" and c: "cursor s = InRange r sv recs"
    and b: "\<forall>k \<in> keys_ahead d. Key sv < k"
  shows "inv3 src dst (log @ [WriteRecord sv]) (snd (Next s)) d"
proof (rule write_item [OF i])
  note p = inv3_parts [OF i]
  show "set (keys_of src dst (WriteRecord sv)) \<subseteq> keys_ahead s \<union> keys_ahead d"
    using record_item(1) [OF c] by blast
  show "\<forall>k \<in> set (keys_of src dst (WriteRecord sv)).
          \<forall>k' \<in> keys_ahead (snd (Next s)) \<union> keys_ahead d. k < k'"
    using b past_record [OF p(4) c] by (auto simp: keys_of_def)
qed (simp_all add: wf_iter_Next inv3_parts [OF i] whole_Next keys_ahead_Next record_item(2) [OF c])

lemma write_record_dest:
  assumes i: "inv3 src dst log s d" and c: "cursor d = InRange r dv recs"
    and b: "\<forall>k \<in> keys_ahead s. Key dv < k"
  shows "inv3 src dst (log @ [WriteRecord dv]) s (snd (Next d))"
proof (rule write_item [OF i])
  note p = inv3_parts [OF i]
  show "set (keys_of src dst (WriteRecord dv)) \<subseteq> keys_ahead s \<union> keys_ahead d"
    using record_item(1) [OF c] by blast
  show "\<forall>k \<in> set (keys_of src dst (WriteRecord dv)).
          \<forall>k' \<in> keys_ahead s \<union> keys_ahead (snd (Next d)). k < k'"
    using b past_record [OF p(5) c] by (auto simp: keys_of_def)
qed (simp_all add: wf_iter_Next inv3_parts [OF i] whole_Next keys_ahead_Next record_item(2) [OF c])

lemma write_record_both:
  assumes i: "inv3 src dst log s d" and cs: "cursor s = InRange r sv recs"
    and cd: "cursor d = InRange r' dv recs'" and m: "Key sv = Key dv"
  shows "inv3 src dst (log @ [WriteRecord sv]) (snd (Next s)) (snd (Next d))"
    and "inv3 src dst (log @ [WriteRecord dv]) (snd (Next s)) (snd (Next d))"
proof -
  note p = inv3_parts [OF i]
  have a: "\<forall>k' \<in> keys_ahead (snd (Next s)) \<union> keys_ahead (snd (Next d)). Key sv < k'"
    using past_record [OF p(4) cs] past_record [OF p(5) cd] m by auto
  show "inv3 src dst (log @ [WriteRecord sv]) (snd (Next s)) (snd (Next d))"
  proof (rule write_item [OF i])
    show "set (keys_of src dst (WriteRecord sv)) \<subseteq> keys_ahead s \<union> keys_ahead d"
      using record_item(1) [OF cs] by blast
    show "\<forall>k \<in> set (keys_of src dst (WriteRecord sv)).
          \<forall>k' \<in> keys_ahead (snd (Next s)) \<union> keys_ahead (snd (Next d)). k < k'"
      using a by (auto simp: keys_of_def)
  qed (simp_all add: wf_iter_Next p whole_Next keys_ahead_Next record_item(2) [OF cs])
  show "inv3 src dst (log @ [WriteRecord dv]) (snd (Next s)) (snd (Next d))"
  proof (rule write_item [OF i])
    show "set (keys_of src dst (WriteRecord dv)) \<subseteq> keys_ahead s \<union> keys_ahead d"
      using record_item(1) [OF cd] by blast
    show "\<forall>k \<in> set (keys_of src dst (WriteRecord dv)).
          \<forall>k' \<in> keys_ahead (snd (Next s)) \<union> keys_ahead (snd (Next d)). k < k'"
      using a m by (auto simp: keys_of_def)
  qed (simp_all add: wf_iter_Next p whole_Next keys_ahead_Next record_item(2) [OF cd])
qed

lemma writeRange_result:
  "writeRange r w0 = (e, w) \<Longrightarrow>
     (e = None \<and> written w = written w0 @ [WriteRange r]) \<or> (e \<noteq> None \<and> w = w0)"
  by (auto simp: writeRange_def writer_call_def split: option.splits nat.splits)

lemma writeRecord_result:
  "writeRecord v w0 = (e, w) \<Longrightarrow>
     (e = None \<and> written w = written w0 @ [WriteRecord v]) \<or> (e \<noteq> None \<and> w = w0)"
  by (auto simp: writeRecord_def writer_call_def split: option.splits nat.splits)

lemma handleBothRanges_Inv:
  assumes i: "Inv src dst m" and cs: "cursor (source m) = AtHeader sr recs"
    and cd: "cursor (dest m) = AtHeader dr recs'"
    and h: "handleBothRanges sr dr m = (e, m')"
  shows "Inv src dst m'"
proof -
  note i3 = i [unfolded Inv_def]
  note p = inv3_parts [OF i3]
  note adv = inv3_advance [OF i3]
  note both = write_range_both [OF i3 cs cd]
  have sd: "MaxKey sr < MinKey dr \<Longrightarrow>
      inv3 src dst (written (writer m) @ [WriteRange sr]) (snd (NextRange (source m))) (dest m)"
    by (rule write_range_source [OF i3 cs]) (rule below_header [OF p(5) cd])
  have ds: "MaxKey dr < MinKey sr \<Longrightarrow>
      inv3 src dst (written (writer m) @ [WriteRange dr]) (source m) (snd (NextRange (dest m)))"
    by (rule write_range_dest [OF i3 cd]) (rule below_header [OF p(4) cs])
  note sm = same_id_same_max [OF i3 cs cd]
  note adv2 = inv3_advance [OF adv(1)] inv3_advance [OF adv(2)]
  show ?thesis
    using h i3 adv adv2 both sd ds sm
    by (auto simp: handleBothRanges_def Inv_def bytes_Compare_less bytes_Equal_def
        split: if_splits prod.splits option.splits dest!: writeRange_result)
qed

lemma handleBothKeys_Inv:
  assumes i: "Inv src dst m" and cs: "cursor (source m) = InRange r sv recs"
    and cd: "cursor (dest m) = InRange r' dv recs'"
    and h: "handleBothKeys sv dv m = (e, m')"
  shows "Inv src dst m'"
proof -
  note i3 = i [unfolded Inv_def]
  note p = inv3_parts [OF i3]
  note adv = inv3_advance [OF i3]
  note both = write_record_both [OF i3 cs cd]
  have sd: "Key sv < Key dv \<Longrightarrow>
      inv3 src dst (written (writer m) @ [WriteRecord sv]) (snd (Next (source m))) (dest m)"
    by (rule write_record_source [OF i3 cs]) (rule below_record [OF p(5) cd])
  have ds: "Key dv < Key sv \<Longrightarrow>
      inv3 src dst (written (writer m) @ [WriteRecord dv]) (source m) (snd (Next (dest m)))"
    by (rule write_record_dest [OF i3 cd]) (rule below_record [OF p(4) cs])
  have eq: "\<not> Key sv < Key dv \<Longrightarrow> \<not> Key dv < Key sv \<Longrightarrow> Key sv = Key dv"
    by simp
  note adv2 = inv3_advance [OF adv(1)]
  show ?thesis
    using h i3 adv adv2 both sd ds eq
    by (auto simp: handleBothKeys_def Inv_def Let_def bytes_Compare_less bytes_Compare_greater
        split: if_splits prod.splits option.splits dest!: writeRecord_result)
qed

lemma handleDestRangeSourceKey_Inv:
  assumes i: "Inv src dst m" and cs: "cursor (source m) = InRange r sv recs"
    and cd: "cursor (dest m) = AtHeader dr recs'"
    and h: "handleDestRangeSourceKey dr sv m = (e, m')"
  shows "Inv src dst m'"
proof -
  note i3 = i [unfolded Inv_def]
  note p = inv3_parts [OF i3]
  note adv = inv3_advance [OF i3]
  have sd: "Key sv < MinKey dr \<Longrightarrow>
      inv3 src dst (written (writer m) @ [WriteRecord sv]) (snd (Next (source m))) (dest m)"
    by (rule write_record_source [OF i3 cs]) (rule below_header [OF p(5) cd])
  show ?thesis
    using h i3 adv sd
    by (auto simp: handleDestRangeSourceKey_def Inv_def bytes_Compare_less bytes_Compare_greater
        split: if_splits prod.splits option.splits dest!: writeRecord_result)
qed

lemma handleSourceRangeDestKey_Inv:
  assumes i: "Inv src dst m" and cs: "cursor (source m) = AtHeader sr recs"
    and cd: "cursor (dest m) = InRange r' dv recs'"
    and h: "handleSourceRangeDestKey sr dv m = (e, m')"
  shows "Inv src dst m'"
proof -
  note i3 = i [unfolded Inv_def]
  note p = inv3_parts [OF i3]
  note adv = inv3_advance [OF i3]
  have ds: "Key dv < MinKey sr \<Longrightarrow>
      inv3 src dst (written (writer m) @ [WriteRecord dv]) (source m) (snd (Next (dest m)))"
    by (rule write_record_dest [OF i3 cd]) (rule below_header [OF p(4) cs])
  show ?thesis
    using h i3 adv ds
    by (auto simp: handleSourceRangeDestKey_def Inv_def bytes_Compare_less bytes_Compare_greater
        split: if_splits prod.splits option.splits dest!: writeRecord_result)
qed

lemma Inv_ctx [simp]: "Inv src dst (m\<lparr>ctx := c\<rparr>) = Inv src dst m"
  by (simp add: Inv_def)

lemma dispatch_Inv:
  assumes "Inv src dst m" "dispatch m = (e, m')"
  shows "Inv src dst m'"
  using assms
  by (auto simp: dispatch_def Value_def split: cursor.splits option.splits prod.splits
      dest: handleBothRanges_Inv handleBothKeys_Inv handleDestRangeSourceKey_Inv
        handleSourceRangeDestKey_Inv)

lemma mergeStep_Inv:
  assumes "Inv src dst m" "mergeStep m = (e, m')"
  shows "Inv src dst m'"
proof -
  obtain a c where c: "ctx_Done (ctx m) = (a, c)" by (cases "ctx_Done (ctx m)")
  obtain e1 m1 where d: "dispatch (m\<lparr>ctx := c\<rparr>) = (e1, m1)" by (cases "dispatch (m\<lparr>ctx := c\<rparr>)")
  from assms(1) have "Inv src dst (m\<lparr>ctx := c\<rparr>)" by simp
  from dispatch_Inv [OF this d] have "Inv src dst m1" .
  with assms c d show ?thesis
    by (auto simp: mergeStep_def split: bool.splits option.splits)
qed

lemma mergeLoop_Inv:
  "Inv src dst m \<Longrightarrow> mergeLoop m = (e, m') \<Longrightarrow> Inv src dst m'"
proof (induction m rule: mergeLoop.induct)
  case (1 m)
  show ?case
  proof (cases "haveSource m \<and> haveDest m")
    case True
    obtain e1 m1 where s: "mergeStep m = (e1, m1)" by (cases "mergeStep m")
    from mergeStep_Inv [OF "1.prems"(1) s] have i1: "Inv src dst m1" .
    show ?thesis
    proof (cases e1)
      case None
      with True s "1.prems"(2) have "mergeLoop m1 = (e, m')"
        by (simp add: mergeLoop.simps [of m])
      with "1.IH" [OF True s [symmetric] None i1] show ?thesis .
    next
      case (Some err)
      with True s "1.prems"(2) have "m' = m1"
        by (simp add: mergeLoop.simps [of m])
      with i1 show ?thesis by simp
    qed
  next
    case False
    with "1.prems" show ?thesis by (auto simp: mergeLoop.simps [of m])
  qed
qed

lemma finished_facts [simp]:
  "wf_iter finished_iterator" "whole finished_iterator = {}" "keys_ahead finished_iterator = {}"
  "cursor finished_iterator = Finished"
  by (simp_all add: finished_iterator_def wf_iter_def whole_def keys_ahead_def ahead_def)

lemma Inv_Inv1: "Inv src dst m \<Longrightarrow> Inv1 src dst sd m"
  by (cases sd) (auto simp: Inv_def Inv1_def inv3_def)

lemma Inv1_sorted:
  "Inv1 src dst sd m \<Longrightarrow> sorted_wrt (<) (emitted_keys src dst (written (writer m)))"
  by (cases sd) (auto simp: Inv1_def inv3_def)

lemma Inv1_ctx [simp]: "Inv1 src dst sd (m\<lparr>ctx := c\<rparr>) = Inv1 src dst sd m"
  by (cases sd) (simp_all add: Inv1_def)

lemma Inv1_base [simp]: "Inv1 src dst sd (m\<lparr>base := b\<rparr>) = Inv1 src dst sd m"
  by (cases sd) (simp_all add: Inv1_def)

lemma Inv1_skip_range:
  "Inv1 src dst sd m \<Longrightarrow> Inv1 src dst sd (set_iter sd (snd (NextRange (iter sd m))) m)"
  by (cases sd) (auto simp: Inv1_def dest: inv3_advance)

lemma Inv1_skip_record:
  "Inv1 src dst sd m \<Longrightarrow> Inv1 src dst sd (set_iter sd (snd (Next (iter sd m))) m)"
  by (cases sd) (auto simp: Inv1_def dest: inv3_advance)

lemma Inv1_write_range:
  assumes "Inv1 src dst sd m" "cursor (iter sd m) = AtHeader r recs"
    and "written w = written (writer m) @ [WriteRange r]"
  shows "Inv1 src dst sd (set_iter sd (snd (NextRange (iter sd m))) (m\<lparr>writer := w\<rparr>))"
proof (cases sd)
  case Source
  with assms write_range_source [of src dst "written (writer m)" "source m" finished_iterator r recs]
  show ?thesis by (simp add: Inv1_def)
next
  case Dest
  with assms write_range_dest [of src dst "written (writer m)" finished_iterator "dest m" r recs]
  show ?thesis by (simp add: Inv1_def)
qed

lemma Inv1_write_record:
  assumes "Inv1 src dst sd m" "cursor (iter sd m) = InRange r v recs"
    and "written w = written (writer m) @ [WriteRecord v]"
  shows "Inv1 src dst sd (set_iter sd (snd (Next (iter sd m))) (m\<lparr>writer := w\<rparr>))"
proof (cases sd)
  case Source
  with assms write_record_source [of src dst "written (writer m)" "source m" finished_iterator r v recs]
  show ?thesis by (simp add: Inv1_def)
next
  case Dest
  with assms write_record_dest [of src dst "written (writer m)" finished_iterator "dest m" r v recs]
  show ?thesis by (simp add: Inv1_def)
qed

lemma set_iter_frame [simp]:
  "writer (set_iter sd it m) = writer m" "base (set_iter sd it m) = base m"
  "ctx (set_iter sd it m) = ctx m" "haveSource (set_iter sd it m) = haveSource m"
  "haveDest (set_iter sd it m) = haveDest m"
  by (cases sd; simp)+

text \<open>What one iteration of the tail does to the writer and to the iterator it drains.\<close>

lemma handleAll_body_effect:
  assumes h: "handleAll_body sd m = (out, m')"
  shows "(written (writer m') = written (writer m) \<and> iter sd m' = iter sd m)
     \<or> (\<exists>r recs. cursor (iter sd m) = AtHeader r recs
           \<and> iter sd m' = snd (NextRange (iter sd m))
           \<and> (written (writer m') = written (writer m)
               \<or> written (writer m') = written (writer m) @ [WriteRange r]))
     \<or> (\<exists>r v recs. cursor (iter sd m) = InRange r v recs
           \<and> iter sd m' = snd (Next (iter sd m))
           \<and> (written (writer m') = written (writer m)
               \<or> written (writer m') = written (writer m) @ [WriteRecord v]))"
    (is "?same_case \<or> ?rng_case \<or> ?rec_case")
proof -
  obtain a c where c: "ctx_Done (ctx m) = (a, c)" by (cases "ctx_Done (ctx m)")
  show ?thesis
  proof (cases a)
    case True
    with h c have "m' = m\<lparr>ctx := c\<rparr>" by (simp add: handleAll_body_def)
    then have ?same_case by simp
    then show ?thesis by (rule disjI1)
  next
    case False
    show ?thesis
    proof (cases "cursor (iter sd m)")
      case Fresh
      with h c False have "m' = m\<lparr>ctx := c\<rparr>" by (simp add: handleAll_body_def Value_def)
      then have ?same_case by simp
      then show ?thesis by (rule disjI1)
    next
      case Finished
      with h c False have "m' = m\<lparr>ctx := c\<rparr>" by (simp add: handleAll_body_def Value_def)
      then have ?same_case by simp
      then show ?thesis by (rule disjI1)
    next
      case (AtHeader r recs)
      obtain br e b where l: "moveBaseToGERange (MinKey r) (base m) = (br, e, b)"
        by (cases "moveBaseToGERange (MinKey r) (base m)")
      obtain we w where w: "(if br = None \<or> ID (the br) \<noteq> ID r
          then writeRange r (writer m) else (None, writer m)) = (we, w)"
        by (cases "if br = None \<or> ID (the br) \<noteq> ID r
          then writeRange r (writer m) else (None, writer m)")
      obtain ok it where n: "NextRange (iter sd m) = (ok, it)" by (cases "NextRange (iter sd m)")
      have wr: "(we \<noteq> None \<and> w = writer m) \<or> (we = None \<and> (written w = written (writer m)
            \<or> written w = written (writer m) @ [WriteRange r]))"
      proof (cases "br = None \<or> ID (the br) \<noteq> ID r")
        case True
        with w have "writeRange r (writer m) = (we, w)" by simp
        from writeRange_result [OF this] show ?thesis by blast
      next
        case False
        with w show ?thesis by simp
      qed
      have v: "Value (iter sd m) = (None, Some r)" using AtHeader by (simp add: Value_def)
      show ?thesis
      proof (cases e)
        case (Some err)
        with h c False v l have "m' = m\<lparr>ctx := c, base := b\<rparr>"
          by (simp add: handleAll_body_def)
        then have ?same_case by simp
        then show ?thesis by (rule disjI1)
      next
        case None
        show ?thesis
        proof (cases we)
          case (Some err)
          with h c False v l None w have "m' = m\<lparr>ctx := c, base := b, writer := w\<rparr>"
            by (simp add: handleAll_body_def)
          with wr Some have ?same_case by simp
          then show ?thesis by (rule disjI1)
        next
          case wn: None
          from h c False v l None w wn n
          have "m' = set_iter sd it (m\<lparr>ctx := c, base := b, writer := w\<rparr>)"
            by (cases ok) (simp_all add: handleAll_body_def)
          then have "iter sd m' = snd (NextRange (iter sd m))" "writer m' = w"
            using n by simp_all
          with wr wn AtHeader have ?rng_case by simp
          then show ?thesis by (rule disjI2 [OF disjI1])
        qed
      qed
    next
      case (InRange r v recs)
      obtain bv e b where l: "moveBaseToGEKey (Key v) (base m) = (bv, e, b)"
        by (cases "moveBaseToGEKey (Key v) (base m)")
      obtain we w where w: "(if bv = None \<or> \<not> bytes_Equal (Identity (the bv)) (Identity v)
          then writeRecord v (writer m) else (None, writer m)) = (we, w)"
        by (cases "if bv = None \<or> \<not> bytes_Equal (Identity (the bv)) (Identity v)
          then writeRecord v (writer m) else (None, writer m)")
      obtain ok it where n: "Next (iter sd m) = (ok, it)" by (cases "Next (iter sd m)")
      have wr: "(we \<noteq> None \<and> w = writer m) \<or> (we = None \<and> (written w = written (writer m)
            \<or> written w = written (writer m) @ [WriteRecord v]))"
      proof (cases "bv = None \<or> \<not> bytes_Equal (Identity (the bv)) (Identity v)")
        case True
        with w have "writeRecord v (writer m) = (we, w)" by simp
        from writeRecord_result [OF this] show ?thesis by blast
      next
        case False
        with w show ?thesis by simp
      qed
      have vv: "Value (iter sd m) = (Some v, Some r)" using InRange by (simp add: Value_def)
      show ?thesis
      proof (cases e)
        case (Some err)
        with h c False vv l have "m' = m\<lparr>ctx := c, base := b\<rparr>"
          by (simp add: handleAll_body_def)
        then have ?same_case by simp
        then show ?thesis by (rule disjI1)
      next
        case None
        show ?thesis
        proof (cases we)
          case (Some err)
          with h c False vv l None w have "m' = m\<lparr>ctx := c, base := b, writer := w\<rparr>"
            by (simp add: handleAll_body_def)
          with wr Some have ?same_case by simp
          then show ?thesis by (rule disjI1)
        next
          case wn: None
          from h c False vv l None w wn n
          have "m' = set_iter sd it (m\<lparr>ctx := c, base := b, writer := w\<rparr>)"
            by (cases ok) (simp_all add: handleAll_body_def)
          then have "iter sd m' = snd (Next (iter sd m))" "writer m' = w"
            using n by simp_all
          with wr wn InRange have ?rec_case by simp
          then show ?thesis by (rule disjI2 [OF disjI2])
        qed
      qed
    qed
  qed
qed

lemma Inv1_cong:
  "written (writer m') = written (writer m) \<Longrightarrow> iter sd m' = iter sd m
     \<Longrightarrow> Inv1 src dst sd m' = Inv1 src dst sd m"
  by (cases sd) (simp_all add: Inv1_def)

lemma handleAll_body_Inv1:
  assumes i: "Inv1 src dst sd m" and h: "handleAll_body sd m = (out, m')"
  shows "Inv1 src dst sd m'"
  using handleAll_body_effect [OF h]
proof (elim disjE exE conjE, goal_cases)
  case 1
  from Inv1_cong [OF 1, of src dst] i show ?case by simp
next
  case (2 r recs)
  have "Inv1 src dst sd m' = Inv1 src dst sd (set_iter sd (snd (NextRange (iter sd m))) m)"
    using 2 by (intro Inv1_cong) simp_all
  with Inv1_skip_range [OF i] show ?case by simp
next
  case (3 r recs)
  have "Inv1 src dst sd m'
      = Inv1 src dst sd (set_iter sd (snd (NextRange (iter sd m))) (m\<lparr>writer := writer m'\<rparr>))"
    using 3 by (intro Inv1_cong) simp_all
  with Inv1_write_range [OF i 3(1,3)] show ?case by simp
next
  case (4 r v recs)
  have "Inv1 src dst sd m' = Inv1 src dst sd (set_iter sd (snd (Next (iter sd m))) m)"
    using 4 by (intro Inv1_cong) simp_all
  with Inv1_skip_record [OF i] show ?case by simp
next
  case (5 r v recs)
  have "Inv1 src dst sd m'
      = Inv1 src dst sd (set_iter sd (snd (Next (iter sd m))) (m\<lparr>writer := writer m'\<rparr>))"
    using 5 by (intro Inv1_cong) simp_all
  with Inv1_write_record [OF i 5(1,3)] show ?case by simp
qed

lemma handleAll_Inv1:
  "Inv1 src dst sd m \<Longrightarrow> handleAll sd m = (e, m') \<Longrightarrow> Inv1 src dst sd m'"
proof (induction sd m rule: handleAll.induct)
  case (1 sd m)
  obtain o1 m1 where b: "handleAll_body sd m = (o1, m1)" by (cases "handleAll_body sd m")
  from handleAll_body_Inv1 [OF "1.prems"(1) b] have i1: "Inv1 src dst sd m1" .
  show ?case
  proof (cases o1)
    case (Returns e1)
    with b "1.prems" have "m' = m1" by (simp add: handleAll.simps [of sd m])
    with i1 show ?thesis by simp
  next
    case Continues
    with b "1.prems" have "handleAll sd m1 = (e, m')" by (simp add: handleAll.simps [of sd m])
    with "1.IH" [OF b [symmetric] Continues i1] show ?thesis .
  qed
qed

lemma handleAll_body_have:
  "handleAll_body sd m = (out, m') \<Longrightarrow> haveSource m' = haveSource m \<and> haveDest m' = haveDest m"
  by (cases sd)
     (auto simp: handleAll_body_def split: prod.splits bool.splits option.splits if_splits)

lemma handleAll_have:
  "handleAll sd m = (e, m') \<Longrightarrow> haveSource m' = haveSource m \<and> haveDest m' = haveDest m"
proof (induction sd m rule: handleAll.induct)
  case (1 sd m)
  obtain o1 m1 where b: "handleAll_body sd m = (o1, m1)" by (cases "handleAll_body sd m")
  note h1 = handleAll_body_have [OF b]
  show ?case
  proof (cases o1)
    case (Returns e1)
    with b "1.prems" have "m' = m1" by (simp add: handleAll.simps [of sd m])
    with h1 show ?thesis by simp
  next
    case Continues
    with b "1.prems" have "handleAll sd m1 = (e, m')" by (simp add: handleAll.simps [of sd m])
    with "1.IH" [OF b [symmetric] Continues] h1 show ?thesis by simp
  qed
qed

lemma mergeLoop_exit:
  "mergeLoop m = (None, m') \<Longrightarrow> \<not> (haveSource m' \<and> haveDest m')"
proof (induction m rule: mergeLoop.induct)
  case (1 m)
  show ?case
  proof (cases "haveSource m \<and> haveDest m")
    case True
    obtain e1 m1 where s: "mergeStep m = (e1, m1)" by (cases "mergeStep m")
    show ?thesis
    proof (cases e1)
      case None
      with True s "1.prems" have "mergeLoop m1 = (None, m')"
        by (simp add: mergeLoop.simps [of m])
      with "1.IH" [OF True s [symmetric] None] show ?thesis .
    next
      case (Some err)
      with True s "1.prems" show ?thesis
        by (simp add: mergeLoop.simps [of m])
    qed
  next
    case False
    with "1.prems" show ?thesis by (auto simp: mergeLoop.simps [of m])
  qed
qed

lemma merge_sorted:
  assumes i: "Inv src dst (prime m)" and r: "merge m = (e, m')"
  shows "sorted_wrt (<) (emitted_keys src dst (written (writer m')))"
proof -
  obtain e1 m1 where l: "mergeLoop (prime m) = (e1, m1)" by (cases "mergeLoop (prime m)")
  from mergeLoop_Inv [OF i l] have i1: "Inv src dst m1" .
  show ?thesis
  proof (cases e1)
    case (Some err)
    with l r have "m' = m1" by (simp add: merge_def)
    with i1 Inv_Inv1 [of src dst m1 Source] show ?thesis by (auto dest: Inv1_sorted)
  next
    case None
    note x = mergeLoop_exit [OF l [unfolded None]]
    show ?thesis
    proof (cases "haveSource m1")
      case True
      with x have nd: "\<not> haveDest m1" by simp
      obtain e2 m2 where a: "handleAll Source m1 = (e2, m2)" by (cases "handleAll Source m1")
      from handleAll_Inv1 [OF Inv_Inv1 [OF i1] a] have i2: "Inv1 src dst Source m2" .
      from handleAll_have [OF a] nd have "\<not> haveDest m2" by simp
      with l r None True a have "m' = m2"
        by (cases e2) (simp_all add: merge_def)
      with i2 show ?thesis by (auto dest: Inv1_sorted)
    next
      case False
      show ?thesis
      proof (cases "haveDest m1")
        case True
        obtain e2 m2 where a: "handleAll Dest m1 = (e2, m2)" by (cases "handleAll Dest m1")
        from handleAll_Inv1 [OF Inv_Inv1 [OF i1] a] have i2: "Inv1 src dst Dest m2" .
        from l r None False True a have "m' = m2"
          by (cases e2) (simp_all add: merge_def)
        with i2 show ?thesis by (auto dest: Inv1_sorted)
      next
        case nd: False
        with l r None False have "m' = m1" by (simp add: merge_def)
        with i1 Inv_Inv1 [of src dst m1 Source] show ?thesis by (auto dest: Inv1_sorted)
      qed
    qed
  qed
qed

section \<open>The claims\<close>

text \<open>
  C1. In \<^verbatim>\<open>handleBothRanges\<close>, where the dest range strictly precedes the source range,
  the claim has the dest range written whole when the base lookup finds no range. The code
  tests \<^verbatim>\<open>baseRange == nil\<close> in the branch that skips the range: with an empty base, a
  source holding the range S = [b..b] and a dest holding the range D = [a..a], the merge
  succeeds and writes S only; the range D that dest added is lost.
\<close>

theorem dest_range_before_source_without_base_is_dropped:
  "fst disjoint_adds_dest_first = None
   \<and> written (writer (snd disjoint_adds_dest_first)) = [WriteRange (mk_range ''S'' 98 98)]"
  by code_simp

text \<open>
  C2. In \<^verbatim>\<open>handleSourceRangeDestKey\<close>, where the dest record precedes the source range
  and the base holds the same record, the claim has the dest iterator advanced. The code
  advances the source iterator: with the source at the header of S = [c..c] and the dest
  at the record b inside D, which the base holds too, the step leaves dest where it was and
  moves the source into its range.
\<close>

theorem record_deleted_by_source_advances_source:
  "dispatch dest_key_before_source_range =
     (None, dest_key_before_source_range
              \<lparr>source := in_range (mk_range ''S'' 99 99) (mk_record 99 3) []\<rparr>)"
  by code_simp

text \<open>
  C3. For a source and a dest that satisfy the invariants of the data model, whatever the
  base, the context and the writer's failures, and whether the merge succeeds or stops with
  an error: the keys the writer has received over the whole call (the key of each record
  written, and the keys of all records of each range written, in the order of the calls)
  are strictly increasing in the order of \<^verbatim>\<open>bytes.Compare\<close>, and no key occurs twice.
\<close>

theorem merge_emits_increasing_keys:
  assumes "wf_ranges src" and "wf_ranges dst" and "content_addressed src dst"
    and "Merge c \<lparr>written = [], budget = n\<rparr> b (stream src fs) (stream dst fd) = (e, m')"
  shows "sorted_wrt (\<lambda>k k'. bytes_Compare k k' < 0) (emitted_keys src dst (written (writer m')))
     \<and> distinct (emitted_keys src dst (written (writer m')))"
proof -
  let ?m = "\<lparr>ctx = c, writer = \<lparr>written = [], budget = n\<rparr>, base = b,
     source = stream src fs, dest = stream dst fd, haveSource = False, haveDest = False\<rparr>"
  have "inv3 src dst [] (stream src fs) (stream dst fd)"
    using assms(1-3)
    by (simp add: inv3_def wf_iter_def whole_def stream_def emitted_keys_def)
  from inv3_advance(3) [OF inv3_advance(1) [OF this]]
  have "Inv src dst (prime ?m)"
    by (simp add: Inv_def prime_def)
  from merge_sorted [OF this assms(4) [unfolded Merge_def]]
  have s: "sorted_wrt (<) (emitted_keys src dst (written (writer m')))" .
  then have "distinct (emitted_keys src dst (written (writer m')))"
    by (rule strict_sorted_iff [THEN iffD1, THEN conjunct2])
  with s show ?thesis by (simp add: bytes_Compare_less)
qed

theorem merge_emits_increasing_keys_witness:
  "wf_ranges source_X_S \<and> wf_ranges dest_X_D \<and> content_addressed source_X_S dest_X_D
   \<and> fst merged_X_S_D = None
   \<and> emitted_keys source_X_S dest_X_D (written (writer (snd merged_X_S_D)))
       = [[97], [98], [99], [100], [101]]
   \<and> sorted_wrt (\<lambda>k k'. bytes_Compare k k' < 0)
       (emitted_keys source_X_S dest_X_D (written (writer (snd merged_X_S_D))))
   \<and> distinct (emitted_keys source_X_S dest_X_D (written (writer (snd merged_X_S_D))))"
proof -
  have s: "wf_ranges source_X_S"
    by (simp add: source_X_S_def wf_ranges_def wf_range_def mk_range_def mk_record_def)
  have d: "wf_ranges dest_X_D"
    by (simp add: dest_X_D_def wf_ranges_def wf_range_def mk_range_def mk_record_def)
  have c: "content_addressed source_X_S dest_X_D"
    by (simp add: content_addressed_def source_X_S_def dest_X_D_def mk_range_def)
  have m: "Merge None \<lparr>written = [], budget = None\<rparr> (stream base_X None)
       (stream source_X_S None) (stream dest_X_D None) = (fst merged_X_S_D, snd merged_X_S_D)"
    by (simp add: merged_X_S_D_def)
  have f: "fst merged_X_S_D = None" by code_simp
  have k: "emitted_keys source_X_S dest_X_D (written (writer (snd merged_X_S_D)))
       = [[97], [98], [99], [100], [101]]" by code_simp
  from merge_emits_increasing_keys [OF s d c m] s d c f k show ?thesis by blast
qed

text \<open>
  C4. In \<^verbatim>\<open>handleBothKeys\<close>, for identical keys the code compares the identities with
  the record the base lookup returns without comparing its key. With a base holding only
  b (identity 7), a source holding a (identity 7) and a dest holding a (identity 8), the
  base has no record with the key a, and the merge reports no conflict: it writes the dest
  record.
\<close>

theorem same_key_without_ancestor_is_not_a_conflict:
  "fst same_key_added_twice = None
   \<and> written (writer (snd same_key_added_twice)) = [WriteRecord (mk_record 97 8)]"
  by code_simp

text \<open>
  C5, as amended. When a handler of the main loop returns the conflict, in whichever
  iteration, \<^verbatim>\<open>merge\<close> returns it at once: the error is the bare sentinel
  \<^verbatim>\<open>ErrConflictFound\<close>, and the merger \<^verbatim>\<open>merge\<close> leaves is the one the handler left, so
  nothing runs after the detection. In that merger the writer, the source and the dest are
  as they were at the top of the iteration; the base is where the lookup of that
  iteration left it.
\<close>

theorem conflict_halts_merge:
  assumes "loop_reaches (prime m) m0" and "haveSource m0" and "haveDest m0"
    and "ctx_Done (ctx m0) = (False, c)"
    and "dispatch (m0\<lparr>ctx := c\<rparr>) = (Some ErrConflictFound, m')"
  shows "merge m = (Some ErrConflictFound, m')
     \<and> writer m' = writer m0 \<and> source m' = source m0 \<and> dest m' = dest m0
     \<and> (\<exists>k bv. moveBaseToGEKey k (base m0) = (bv, None, base m'))"
proof -
  from assms(4,5) have s: "mergeStep m0 = (Some ErrConflictFound, m')"
    by (simp add: mergeStep_def)
  with assms(2,3) have "mergeLoop m0 = (Some ErrConflictFound, m')"
    by (simp add: mergeLoop.simps [of m0])
  with mergeLoop_reaches [OF assms(1)] have "merge m = (Some ErrConflictFound, m')"
    by (simp add: merge_def)
  with mergeStep_conflict [OF s] show ?thesis by simp
qed

text \<open>
  C5 as stated fails: no key is attached to the conflict. A conflict on the key a and a
  conflict on the key b return the same error value.
\<close>

theorem conflict_error_carries_no_key:
  "fst (merge (conflicting_modifies 97)) = Some ErrConflictFound
   \<and> fst (merge (conflicting_modifies 98)) = Some ErrConflictFound"
  by code_simp

theorem conflict_halts_merge_witness:
  "loop_reaches (prime conflict_after_write) conflict_third_iteration
   \<and> haveSource conflict_third_iteration \<and> haveDest conflict_third_iteration
   \<and> ctx_Done (ctx conflict_third_iteration) = (False, None)
   \<and> fst (dispatch (conflict_third_iteration\<lparr>ctx := None\<rparr>)) = Some ErrConflictFound
   \<and> fst (merge conflict_after_write) = Some ErrConflictFound
   \<and> snd (merge conflict_after_write) = snd (dispatch (conflict_third_iteration\<lparr>ctx := None\<rparr>))
   \<and> written (writer (snd (merge conflict_after_write))) = [WriteRecord (mk_record 97 5)]
   \<and> written (writer conflict_third_iteration) = [WriteRecord (mk_record 97 5)]
   \<and> source (snd (merge conflict_after_write)) = source conflict_third_iteration
   \<and> dest (snd (merge conflict_after_write)) = dest conflict_third_iteration"
proof -
  have h1: "haveSource (prime conflict_after_write)" "haveDest (prime conflict_after_write)"
    by code_simp+
  have "fst (mergeStep (prime conflict_after_write)) = None" by code_simp
  then have s1: "mergeStep (prime conflict_after_write) = (None, conflict_second_iteration)"
    by (simp add: conflict_second_iteration_def prod_eq_iff)
  have h2: "haveSource conflict_second_iteration" "haveDest conflict_second_iteration"
    by code_simp+
  have "fst (mergeStep conflict_second_iteration) = None" by code_simp
  then have s2: "mergeStep conflict_second_iteration = (None, conflict_third_iteration)"
    by (simp add: conflict_third_iteration_def prod_eq_iff)
  have r: "loop_reaches (prime conflict_after_write) conflict_third_iteration"
    by (rule loop_reaches.step [OF loop_reaches.step [OF loop_reaches.start h1 s1] h2 s2])
  have h3: "haveSource conflict_third_iteration" "haveDest conflict_third_iteration"
    by code_simp+
  have c: "ctx_Done (ctx conflict_third_iteration) = (False, None)" by code_simp
  have f: "fst (dispatch (conflict_third_iteration\<lparr>ctx := None\<rparr>)) = Some ErrConflictFound"
    by code_simp
  then have d: "dispatch (conflict_third_iteration\<lparr>ctx := None\<rparr>)
      = (Some ErrConflictFound, snd (dispatch (conflict_third_iteration\<lparr>ctx := None\<rparr>)))"
    by (simp add: prod_eq_iff)
  have w: "written (writer conflict_third_iteration) = [WriteRecord (mk_record 97 5)]"
    by code_simp
  from conflict_halts_merge [OF r h3 c d] r h3 c f w show ?thesis by simp
qed

text \<open>
  C6. Idempotence: merging X with itself over the base X, with a context that is never
  cancelled, a writer that never fails and iterators that end without an I/O failure,
  succeeds and writes exactly the ranges of X, each whole by \<^verbatim>\<open>WriteRange\<close>, in order;
  no record is written singly. It holds for every list of ranges X.
\<close>

theorem merge_idempotent:
  "fst (Merge None new_writer (new_iterator X) (new_iterator X) (new_iterator X)) = None
   \<and> written (writer (snd (Merge None new_writer (new_iterator X) (new_iterator X)
         (new_iterator X)))) = map (WriteRange \<circ> fst) X"
proof (cases X)
  case Nil
  then show ?thesis
    by (simp add: Merge_def merge_def prime_def new_iterator_def new_writer_def Next_def
        NextRange_def mergeLoop.simps)
next
  case (Cons p rest)
  obtain r recs where p: "p = (r, recs)" by (cases p)
  let ?m = "prime \<lparr>ctx = None, writer = new_writer, base = new_iterator X,
     source = new_iterator X, dest = new_iterator X, haveSource = False, haveDest = False\<rparr>"
  have l: "fst (mergeLoop ?m) = None
     \<and> written (writer (snd (mergeLoop ?m)))
         = written (writer ?m) @ map (WriteRange \<circ> fst) ((r, recs) # rest)
     \<and> \<not> haveSource (snd (mergeLoop ?m)) \<and> \<not> haveDest (snd (mergeLoop ?m))"
    using Cons p
    by (intro mergeLoop_same)
       (simp_all add: prime_def new_iterator_def new_writer_def Next_def NextRange_def Err_def)
  have w: "written (writer ?m) = []"
    by (simp add: prime_def new_writer_def)
  show ?thesis
    using l w Cons p
    by (cases "mergeLoop ?m") (simp add: Merge_def merge_def)
qed

theorem merge_idempotent_witness:
  "fst (Merge None new_writer (new_iterator two_ranges) (new_iterator two_ranges)
         (new_iterator two_ranges)) = None
   \<and> written (writer (snd (Merge None new_writer (new_iterator two_ranges)
         (new_iterator two_ranges) (new_iterator two_ranges))))
     = [WriteRange (mk_range ''X'' 97 98), WriteRange (mk_range ''Y'' 99 99)]"
  using merge_idempotent [of two_ranges] by (simp add: two_ranges_def)

text \<open>
  C7. The context is polled at the top of every iteration of the main loop and at the top
  of every iteration of \<^verbatim>\<open>handleAll\<close>. Whichever of these polls a call of \<^verbatim>\<open>merge\<close>
  has come to, after any number of iterations and writer calls: if the context is done
  there, \<^verbatim>\<open>merge\<close> returns the context's error, and the merger it leaves is the one it
  had at that poll, so no writer call and no advance follows the cancellation.
\<close>

theorem cancellation_checked_every_iteration:
  assumes "polls m m'" and "ctx m' = Some 0"
  shows "merge m = (Some ErrCanceled, m')"
  using assms(1)
proof (cases rule: polls.cases)
  case in_loop
  with assms(2) mergeLoop_reaches [of "prime m" m'] show ?thesis
    by (simp add: merge_def mergeLoop_cancelled)
next
  case (in_source_tail m1)
  with assms(2) handleAll_reaches [of Source m1 m'] show ?thesis
    by (simp add: merge_def handleAll_cancelled)
next
  case (in_dest_tail m1 m2)
  from in_dest_tail(4) assms(2) have "handleAll Dest m2 = (Some ErrCanceled, m')"
    by (simp add: handleAll_reaches handleAll_cancelled)
  with in_dest_tail(1-3) show ?thesis
    by (simp add: merge_def)
qed

theorem cancellation_checked_every_iteration_witness:
  "polls cancelled_before_start (prime cancelled_before_start)
   \<and> ctx (prime cancelled_before_start) = Some 0
   \<and> merge cancelled_before_start = (Some ErrCanceled, prime cancelled_before_start)
   \<and> written (writer (prime cancelled_before_start)) = []
   \<and> polls cancelled_in_tail tail_second_poll
   \<and> ctx tail_second_poll = Some 0
   \<and> merge cancelled_in_tail = (Some ErrCanceled, tail_second_poll)
   \<and> written (writer tail_second_poll)
       = [WriteRange (mk_range ''S'' 97 97), WriteRange (mk_range ''D'' 98 98)]
   \<and> Merge (Some 0) new_writer (new_iterator [])
         (new_iterator [(mk_range ''S'' 97 97, [mk_record 97 1])])
         (new_iterator [(mk_range ''D'' 98 98, [mk_record 98 2])])
       = (Some ErrCanceled, prime cancelled_before_start)
   \<and> Merge (Some 2) new_writer (new_iterator [])
         (new_iterator [(mk_range ''S'' 97 97, [mk_record 97 1])])
         (new_iterator [(mk_range ''D'' 98 98, [mk_record 98 2]),
                        (mk_range ''E'' 99 99, [mk_record 99 3])])
       = (Some ErrCanceled, tail_second_poll)"
proof -
  have M0: "Merge (Some 0) new_writer (new_iterator [])
         (new_iterator [(mk_range ''S'' 97 97, [mk_record 97 1])])
         (new_iterator [(mk_range ''D'' 98 98, [mk_record 98 2])])
       = merge cancelled_before_start"
    by (simp add: Merge_def cancelled_before_start_def)
  have M2: "Merge (Some 2) new_writer (new_iterator [])
         (new_iterator [(mk_range ''S'' 97 97, [mk_record 97 1])])
         (new_iterator [(mk_range ''D'' 98 98, [mk_record 98 2]),
                        (mk_range ''E'' 99 99, [mk_record 99 3])])
       = merge cancelled_in_tail"
    by (simp add: Merge_def cancelled_in_tail_def)
  have h: "haveSource (prime cancelled_before_start)" "haveDest (prime cancelled_before_start)"
    by code_simp+
  have p0: "polls cancelled_before_start (prime cancelled_before_start)"
    by (rule polls.in_loop [OF loop_reaches.start h])
  have c0: "ctx (prime cancelled_before_start) = Some 0" by code_simp
  have w0: "written (writer (prime cancelled_before_start)) = []" by code_simp
  have "fst (mergeLoop (prime cancelled_in_tail)) = None" by code_simp
  then have l: "mergeLoop (prime cancelled_in_tail) = (None, tail_first_poll)"
    by (simp add: tail_first_poll_def prod_eq_iff)
  have ns: "\<not> haveSource tail_first_poll" by code_simp
  then have a: "(if haveSource tail_first_poll then handleAll Source tail_first_poll
       else (None, tail_first_poll)) = (None, tail_first_poll)" by simp
  have hd: "haveDest tail_first_poll" by code_simp
  have "fst (handleAll_body Dest tail_first_poll) = Continues" by code_simp
  then have b: "handleAll_body Dest tail_first_poll = (Continues, tail_second_poll)"
    by (simp add: tail_second_poll_def prod_eq_iff)
  have p1: "polls cancelled_in_tail tail_second_poll"
    by (rule polls.in_dest_tail [OF l a hd drain_reaches.step [OF drain_reaches.start b]])
  have c1: "ctx tail_second_poll = Some 0" by code_simp
  have w1: "written (writer tail_second_poll)
       = [WriteRange (mk_range ''S'' 97 97), WriteRange (mk_range ''D'' 98 98)]" by code_simp
  from cancellation_checked_every_iteration [OF p0 c0]
    cancellation_checked_every_iteration [OF p1 c1] p0 c0 w0 p1 c1 w1 M0 M2
  show ?thesis by simp
qed

text \<open>
  C8. \<^verbatim>\<open>moveBaseToGEKey\<close> never returns a record of another range. For a base whose
  ranges ahead have distinct ids and hold their records within their bounds, the result
  is: absent when no range ahead has a max key of at least \<open>k\<close>; otherwise, with the
  first such range, the first record ahead in that range whose key is at least \<open>k\<close>,
  and absent when that range has none, whatever the later ranges hold.
\<close>

theorem moveBaseToGEKey_stays_in_range:
  assumes "distinct (map (\<lambda>p. ID (fst p)) (ahead b))" and "records_in_bounds (ahead b)"
  shows "fst (moveBaseToGEKey k b) =
     (case ge_range k b of
        None \<Rightarrow> None
      | Some (r, recs) \<Rightarrow> find (\<lambda>v. bytes_Compare k (Key v) \<le> 0) recs)"
proof (cases "fst (Value b) \<noteq> None \<and> bytes_Compare k (Key (the (fst (Value b)))) \<le> 0")
  case True
  then obtain r v recs where c: "cursor b = InRange r v recs"
    and k: "bytes_Compare k (Key v) \<le> 0"
    by (auto simp: Value_def split: cursor.splits)
  from c assms(2) have "bytes_Compare (Key v) (MaxKey r) \<le> 0"
    by (auto simp: records_in_bounds_def ahead_def)
  with k have "bytes_Compare (MaxKey r) k \<ge> 0"
    by (simp add: bytes_Compare_le bytes_Compare_ge)
  with c have "ge_range k b = Some (r, v # recs)"
    by (simp add: ge_range_def ahead_def)
  with True c k show ?thesis
    by (simp add: moveBaseToGEKey_def Value_def)
next
  case False
  obtain r e b1 where m: "moveBaseToGERange k b = (r, e, b1)"
    by (cases "moveBaseToGERange k b")
  note s = moveBaseToGERange_spec [OF m]
  show ?thesis
  proof (cases "ge_range k b")
    case None
    with s have r: "r = None" "cursor b1 = Finished" by simp_all
    have "fst (moveBaseToGEKey k b) = None"
    proof (cases e)
      case None
      with False m r show ?thesis
        by (auto simp: moveBaseToGEKey_def Let_def loop_finished)
    next
      case (Some err)
      with False m show ?thesis
        by (auto simp: moveBaseToGEKey_def Let_def)
    qed
    with None show ?thesis by simp
  next
    case (Some p)
    obtain r0 recs0 where p: "p = (r0, recs0)" by (cases p)
    from Some p s have r: "r = Some r0" "e = None" "snd (Value b1) = Some r0" by simp_all
    from Some p have "\<exists>rest. dropWhile (\<lambda>p. \<not> bytes_Compare (MaxKey (fst p)) k \<ge> 0) (ahead b)
        = (r0, recs0) # rest"
      by (auto simp: ge_range_def dest: find_Some_dropWhile)
    with s obtain rest where a: "ahead b1 = (r0, recs0) # rest" by auto
    have d: "distinct (map (\<lambda>p. ID (fst p)) (ahead b1))"
      using s assms(1) by (simp add: distinct_map distinct_dropWhile inj_on_def set_dropWhileD)
    have "fst (moveBaseToGEKey_loop k (Some r0) b1)
           = find (\<lambda>v. bytes_Compare k (Key v) \<le> 0) recs0"
      using a r(3) d by (rule loop_in_ge_range)
    with False m r Some p show ?thesis
      by (auto simp: moveBaseToGEKey_def Let_def)
  qed
qed

theorem moveBaseToGEKey_stays_in_range_witness:
  "distinct (map (\<lambda>p. ID (fst p)) (ahead short_range_then_d))
   \<and> records_in_bounds (ahead short_range_then_d)
   \<and> ge_range [98] short_range_then_d = Some (mk_range ''B1'' 97 99, [mk_record 97 1])
   \<and> fst (moveBaseToGEKey [98] short_range_then_d) = None
   \<and> fst (moveBaseToGEKey [97] short_range_then_d) = Some (mk_record 97 1)"
proof -
  have d: "distinct (map (\<lambda>p. ID (fst p)) (ahead short_range_then_d))"
    by (simp add: short_range_then_d_def ahead_def mk_range_def)
  have b: "records_in_bounds (ahead short_range_then_d)"
    by (simp add: short_range_then_d_def ahead_def records_in_bounds_def mk_range_def
        mk_record_def)
  have g: "ge_range [98] short_range_then_d = Some (mk_range ''B1'' 97 99, [mk_record 97 1])"
    "ge_range [97] short_range_then_d = Some (mk_range ''B1'' 97 99, [mk_record 97 1])"
    by (simp_all add: short_range_then_d_def ahead_def ge_range_def mk_range_def)
  from moveBaseToGEKey_stays_in_range [OF d b, of "[98]"]
    moveBaseToGEKey_stays_in_range [OF d b, of "[97]"] d b g
  show ?thesis
    by (simp add: mk_record_def)
qed

text \<open>
  C9. In \<^verbatim>\<open>handleAll\<close> the claim has a record skipped when its ancestor, the record of
  the base under the same key, has the identical identity, and written otherwise. The code
  compares the identity with the record the base lookup returns, the first base record
  with a key of at least the record's key, without comparing the keys. With a base holding
  a and d (identity 7), a source holding a only and a dest holding a and c (identity 7),
  the base has no record under the key c; the merge succeeds and writes a only: the
  record c that dest added is lost.
\<close>

theorem record_added_by_dest_lost_in_tail:
  "fst added_record_lost_in_tail = None
   \<and> written (writer (snd added_record_lost_in_tail)) = [WriteRecord (mk_record 97 1)]"
  by code_simp

text \<open>
  C10. When the source and the dest iterators are both at range headers with equal range
  ids, the iteration of the loop leaves the base iterator as it was: the base is neither
  consulted nor advanced. If the context is not done and the writer accepts the call, the
  iteration writes the source range whole and advances both sides by \<^verbatim>\<open>NextRange\<close>.
\<close>

theorem same_id_ranges_leave_base:
  assumes "Value (source m) = (None, Some sourceRange)"
    and "Value (dest m) = (None, Some destRange)"
    and "ID sourceRange = ID destRange"
  shows "base (snd (mergeStep m)) = base m
    \<and> (\<not> fst (ctx_Done (ctx m)) \<and> budget (writer m) \<noteq> Some 0 \<longrightarrow>
         written (writer (snd (mergeStep m))) = written (writer m) @ [WriteRange sourceRange]
       \<and> source (snd (mergeStep m)) = snd (NextRange (source m))
       \<and> dest (snd (mergeStep m)) = snd (NextRange (dest m))
       \<and> haveSource (snd (mergeStep m)) = fst (NextRange (source m))
       \<and> haveDest (snd (mergeStep m)) = fst (NextRange (dest m)))"
proof -
  let ?m0 = "m\<lparr>ctx := snd (ctx_Done (ctx m))\<rparr>"
  have d: "dispatch ?m0 = handleBothRanges sourceRange destRange ?m0"
    using assms(1,2) by (simp add: dispatch_def)
  have h: "handleBothRanges sourceRange destRange ?m0 =
     (case writeRange sourceRange (writer m) of
        (Some err, w) \<Rightarrow> (Some err, ?m0\<lparr>writer := w\<rparr>)
      | (None, w) \<Rightarrow> (None, dest_NextRange (source_NextRange (?m0\<lparr>writer := w\<rparr>))))"
    using assms(3) by (simp add: handleBothRanges_same_id)
  have b: "base (snd (mergeStep m)) = base m"
    by (simp add: mergeStep_snd d h split: prod.splits option.splits)
  show ?thesis
  proof (intro conjI impI b)
    assume a: "\<not> fst (ctx_Done (ctx m)) \<and> budget (writer m) \<noteq> Some 0"
    then obtain w where w: "writeRange sourceRange (writer m) = (None, w)"
      "written w = written (writer m) @ [WriteRange sourceRange]"
      using writeRange_err [of sourceRange "writer m"]
        writeRange_written [of sourceRange "writer m"]
      by (cases "writeRange sourceRange (writer m)") simp
    from a w have s:
      "snd (mergeStep m) = dest_NextRange (source_NextRange (?m0\<lparr>writer := w\<rparr>))"
      by (simp add: mergeStep_snd d h)
    from w show
      "written (writer (snd (mergeStep m))) = written (writer m) @ [WriteRange sourceRange]"
      by (simp add: s)
    show "source (snd (mergeStep m)) = snd (NextRange (source m))" by (simp add: s)
    show "dest (snd (mergeStep m)) = snd (NextRange (dest m))" by (simp add: s)
    show "haveSource (snd (mergeStep m)) = fst (NextRange (source m))" by (simp add: s)
    show "haveDest (snd (mergeStep m)) = fst (NextRange (dest m))" by (simp add: s)
  qed
qed

theorem same_id_ranges_leave_base_witness:
  "Value (source both_at_header_X) = (None, Some (mk_range ''X'' 97 98))
   \<and> Value (dest both_at_header_X) = (None, Some (mk_range ''X'' 97 98))
   \<and> \<not> fst (ctx_Done (ctx both_at_header_X)) \<and> budget (writer both_at_header_X) \<noteq> Some 0
   \<and> base (snd (mergeStep both_at_header_X)) = base both_at_header_X
   \<and> written (writer (snd (mergeStep both_at_header_X))) = [WriteRange (mk_range ''X'' 97 98)]
   \<and> cursor (source (snd (mergeStep both_at_header_X))) = Finished
   \<and> cursor (dest (snd (mergeStep both_at_header_X))) = Finished"
proof -
  have v: "Value (source both_at_header_X) = (None, Some (mk_range ''X'' 97 98))"
    "Value (dest both_at_header_X) = (None, Some (mk_range ''X'' 97 98))"
    by (simp_all add: both_at_header_X_def at_header_def Value_def)
  have n: "\<not> fst (ctx_Done (ctx both_at_header_X)) \<and> budget (writer both_at_header_X) \<noteq> Some 0"
    by (simp add: both_at_header_X_def new_writer_def)
  from same_id_ranges_leave_base [OF v refl] n v show ?thesis
    by (simp add: both_at_header_X_def at_header_def NextRange_def new_writer_def)
qed

end
